theory Spec2Isabelle
  imports Main "HOL-Library.Word" "HOL-Library.Multiset"
begin

unbundle bit_operations_syntax

section \<open>Data model\<close>

text \<open>
  A Python \<open>str\<close> is a sequence of Unicode code points, a \<open>bytes\<close> object a
  sequence of 8-bit values. ASCII literals of the source are written \<open>u ''...''\<close>.
\<close>

type_synonym pystr = "nat list"
type_synonym byte = "8 word"

definition u :: "string \<Rightarrow> pystr" where
  "u s = map of_char s"

text \<open>The exceptions the modelled code paths raise.\<close>

datatype error =
    RuntimeError pystr
  | UnicodeEncodeError
  | TypeError
  | KeyError

text \<open>
  A \<open>requests.Response\<close> whose status check has passed: the decoded text and the
  raw body.
\<close>

record response =
  resp_text :: pystr
  resp_content :: "byte list"

text \<open>
  The process state that the scrapers act on: the state of the remote world
  (everything the HTTP session talks to), the GET requests issued so far, the
  arguments of every \<open>time.sleep\<close> call, the warnings logged (message and attempt
  number) and the files under the output directory (path components to content).
\<close>

record 'w state =
  world :: 'w
  requests :: "pystr list"
  sleeps :: "nat list"
  warnings :: "(pystr \<times> nat) list"
  files :: "pystr list \<rightharpoonup> byte list"

section \<open>Retrying fetch\<close>

text \<open>
  \<open>sess.get(url, timeout=30)\<close> followed by \<open>resp.raise_for_status()\<close> is the
  dependency \<open>get\<close>: it answers with the message of the exception raised
  (\<open>Inl\<close>) or with the response (\<open>Inr\<close>) and moves the world on.

  \<open>retry_loop\<close> is the body of \<open>for retry in range(3)\<close> of \<open>safe_request\<close>:
  \<open>Some\<close> is the \<open>return resp\<close> inside the loop, \<open>None\<close> the loop running out.
\<close>

type_synonym 'w getter = "pystr \<Rightarrow> 'w \<Rightarrow> (pystr + response) \<times> 'w"

fun retry_loop :: "'w getter \<Rightarrow> pystr \<Rightarrow> nat list \<Rightarrow> 'w state \<Rightarrow> response option \<times> 'w state" where
  "retry_loop get url [] st = (None, st)"
| "retry_loop get url (retry # rest) st =
     (case get url (world st) of
        (Inr resp, w') \<Rightarrow>
          (Some resp, st\<lparr>world := w', requests := requests st @ [url]\<rparr>)
      | (Inl err, w') \<Rightarrow>
          retry_loop get url rest
            (st\<lparr>world := w',
                requests := requests st @ [url],
                warnings := warnings st @ [(err, retry + 1)],
                sleeps := sleeps st @ [3 * (retry + 1)]\<rparr>))"

definition safe_request :: "'w getter \<Rightarrow> pystr \<Rightarrow> 'w state \<Rightarrow> (error + response) \<times> 'w state" where
  "safe_request get url st =
     (case retry_loop get url [0..<3] st of
        (Some resp, st') \<Rightarrow> (Inr resp, st')
      | (None, st') \<Rightarrow>
          (Inl (RuntimeError (u ''Failed to fetch '' @ url @ u '' after 3 attempts'')), st'))"

text \<open>
  A scripted world for concrete runs: the list of the answers the next GET requests
  will get, whatever the URL; a request beyond the script fails.
\<close>

definition scripted :: "(pystr + response) list getter" where
  "scripted url w =
     (case w of [] \<Rightarrow> (Inl (u ''connection refused''), []) | x # xs \<Rightarrow> (x, xs))"

definition init_state :: "'w \<Rightarrow> 'w state" where
  "init_state w = \<lparr>world = w, requests = [], sleeps = [], warnings = [], files = Map.empty\<rparr>"

section \<open>Text: case mapping and the regular expressions of the source\<close>

text \<open>
  The tables of the Unicode database that \<open>str.lower\<close> and the \<open>re\<close> classes
  \<open>\w\<close> and \<open>\d\<close> consult for code points outside ASCII are not part of the
  repository: they are a parameter. \<open>ucd_lower\<close> is the full lower-case mapping of
  a code point, \<open>ucd_final_sigma s i\<close> tells whether the capital sigma at index
  \<open>i\<close> of \<open>s\<close> is in final position, \<open>ucd_alnum\<close> is \<open>str.isalnum\<close> and
  \<open>ucd_decimal\<close> is \<open>str.isdecimal\<close> on one code point. On ASCII the functions
  below are written out.
\<close>

record ucd =
  ucd_lower :: "nat \<Rightarrow> pystr"
  ucd_final_sigma :: "pystr \<Rightarrow> nat \<Rightarrow> bool"
  ucd_alnum :: "nat \<Rightarrow> bool"
  ucd_decimal :: "nat \<Rightarrow> bool"

text \<open>
  \<open>text.lower()\<close>: code point by code point, the capital sigma (931) becoming the
  final (962) or the medial (963) small sigma by its context.
\<close>

definition lower_char :: "ucd \<Rightarrow> nat \<Rightarrow> pystr" where
  "lower_char db c =
     (if c < 128 then [if 65 \<le> c \<and> c \<le> 90 then c + 32 else c] else ucd_lower db c)"

definition lower_at :: "ucd \<Rightarrow> pystr \<Rightarrow> nat \<Rightarrow> pystr" where
  "lower_at db s i =
     (if s ! i = 931 then [if ucd_final_sigma db s i then 962 else 963]
      else lower_char db (s ! i))"

definition py_lower :: "ucd \<Rightarrow> pystr \<Rightarrow> pystr" where
  "py_lower db s = concat (map (lower_at db s) [0..<length s])"

text \<open>The class \<open>\w\<close> of a \<open>str\<close> pattern: alphanumeric or underscore.\<close>

definition is_word :: "ucd \<Rightarrow> nat \<Rightarrow> bool" where
  "is_word db c =
     (if c < 128
      then (48 \<le> c \<and> c \<le> 57) \<or> (65 \<le> c \<and> c \<le> 90) \<or> (97 \<le> c \<and> c \<le> 122) \<or> c = 95
      else ucd_alnum db c)"

text \<open>
  \<open>re.sub("[...]+", "-", s)\<close> for a character class \<open>m\<close>: every maximal run of
  characters of the class is replaced by one hyphen (45). The two calls of
  \<open>slugify\<close> are the classes \<open>[^\w\-]\<close> and \<open>-\<close>.
\<close>

function re_sub_runs :: "(nat \<Rightarrow> bool) \<Rightarrow> pystr \<Rightarrow> pystr" where
  "re_sub_runs m [] = []"
| "re_sub_runs m (c # cs) =
     (if m c then 45 # re_sub_runs m (dropWhile m cs) else c # re_sub_runs m cs)"
  by pat_completeness auto
termination
  by (relation "measure (\<lambda>(m, s). length s)")
     (auto simp: length_dropWhile_le less_Suc_eq_le)

text \<open>\<open>s.strip(ch)\<close> for a single character \<open>ch\<close>.\<close>

definition py_strip :: "nat \<Rightarrow> pystr \<Rightarrow> pystr" where
  "py_strip ch s = rev (dropWhile (\<lambda>c. c = ch) (rev (dropWhile (\<lambda>c. c = ch) s)))"

definition slugify :: "ucd \<Rightarrow> pystr \<Rightarrow> pystr" where
  "slugify db text =
     py_strip 45
       (re_sub_runs (\<lambda>c. c = 45)
          (re_sub_runs (\<lambda>c. \<not> (is_word db c \<or> c = 45)) (py_lower db text)))"

text \<open>
  A table for concrete runs: what Python's Unicode database says about the code points
  of Latin-1 (128 to 255); beyond them it leaves every code point unchanged and
  outside every class.
\<close>

definition latin1_ucd :: ucd where
  "latin1_ucd =
     \<lparr>ucd_lower = (\<lambda>c. if (192 \<le> c \<and> c \<le> 214) \<or> (216 \<le> c \<and> c \<le> 222) then [c + 32] else [c]),
      ucd_final_sigma = (\<lambda>s i. False),
      ucd_alnum = (\<lambda>c. c \<in> {170, 178, 179, 181, 185, 186, 188, 189, 190}
                     \<or> (192 \<le> c \<and> c \<le> 214) \<or> (216 \<le> c \<and> c \<le> 246) \<or> (248 \<le> c \<and> c \<le> 255)),
      ucd_decimal = (\<lambda>c. False)\<rparr>"


text \<open>The class \<open>\d\<close> of a \<open>str\<close> pattern: a decimal digit.\<close>

definition is_digit :: "ucd \<Rightarrow> nat \<Rightarrow> bool" where
  "is_digit db c = (if c < 128 then 48 \<le> c \<and> c \<le> 57 else ucd_decimal db c)"

text \<open>
  \<open>re.search(r"(\d{4})", s)\<close>: the match is tried at each position from the left;
  the result is group 1 of the first match.
\<close>

fun search_d4 :: "ucd \<Rightarrow> pystr \<Rightarrow> pystr option" where
  "search_d4 db (a # b # c # d # rest) =
     (if is_digit db a \<and> is_digit db b \<and> is_digit db c \<and> is_digit db d
      then Some [a, b, c, d]
      else search_d4 db (b # c # d # rest))"
| "search_d4 db s = None"

text \<open>
  For the statements about the search: four decimal digits stand at index \<open>i\<close>
  of \<open>s\<close>.
\<close>

definition d4_at :: "ucd \<Rightarrow> pystr \<Rightarrow> nat \<Rightarrow> bool" where
  "d4_at db s i = (i + 4 \<le> length s \<and> (\<forall>j<4. is_digit db (s ! (i + j))))"

text \<open>\<open>s.startswith(p)\<close> and \<open>needle in hay\<close> on strings.\<close>

definition startswith :: "pystr \<Rightarrow> pystr \<Rightarrow> bool" where
  "startswith s p = (take (length p) s = p)"


text \<open>
  Properties of text used in the statements: a code point that \<open>lower\<close> leaves alone,
  a table whose lower-case mapping only produces such code points, and a string with
  two adjacent hyphens.
\<close>

definition lower_fixed :: "ucd \<Rightarrow> nat \<Rightarrow> bool" where
  "lower_fixed db d = (d \<noteq> 931 \<and> lower_char db d = [d])"

definition lower_settles :: "ucd \<Rightarrow> bool" where
  "lower_settles db =
     ((\<forall>c d. 128 \<le> c \<and> c \<noteq> 931 \<and> d \<in> set (ucd_lower db c) \<longrightarrow> lower_fixed db d)
      \<and> lower_fixed db 962 \<and> lower_fixed db 963)"

definition double_hyphen :: "pystr \<Rightarrow> bool" where
  "double_hyphen s = (\<exists>p q. s = p @ 45 # 45 # q)"

section \<open>Records and the content store\<close>

text \<open>
  An extracted record is a Python \<open>dict\<close> from strings to strings: the keys in
  insertion order, each once. \<open>dict_set\<close> is \<open>d[k] = v\<close> (a key already there
  keeps its place), \<open>dict_of_pairs\<close> is \<open>dict(pairs)\<close> and \<open>dict_get\<close> the
  lookup.
\<close>

type_synonym pydict = "(pystr \<times> pystr) list"

fun dict_set :: "pydict \<Rightarrow> pystr \<Rightarrow> pystr \<Rightarrow> pydict" where
  "dict_set [] k v = [(k, v)]"
| "dict_set ((k', v') # d) k v =
     (if k' = k then (k', v) # d else (k', v') # dict_set d k v)"

definition dict_of_pairs :: "(pystr \<times> pystr) list \<Rightarrow> pydict" where
  "dict_of_pairs ps = foldl (\<lambda>d (k, v). dict_set d k v) [] ps"

definition dict_get :: "pydict \<Rightarrow> pystr \<Rightarrow> pystr option" where
  "dict_get d k = map_of d k"

text \<open>
  The text file opened with \<open>encoding="utf-8"\<close>: a code point becomes one to four
  bytes; a surrogate (55296 to 57343) cannot be encoded, which raises
  \<open>UnicodeEncodeError\<close>.
\<close>

definition utf8_char :: "nat \<Rightarrow> byte list option" where
  "utf8_char c =
     (if c < 128 then Some [of_nat c]
      else if c < 2048 then Some [of_nat (192 + c div 64), of_nat (128 + c mod 64)]
      else if c < 65536 then
        (if 55296 \<le> c \<and> c < 57344 then None
         else Some [of_nat (224 + c div 4096), of_nat (128 + c div 64 mod 64),
                    of_nat (128 + c mod 64)])
      else if c < 1114112 then
        Some [of_nat (240 + c div 262144), of_nat (128 + c div 4096 mod 64),
              of_nat (128 + c div 64 mod 64), of_nat (128 + c mod 64)]
      else None)"

fun utf8_encode :: "pystr \<Rightarrow> byte list option" where
  "utf8_encode [] = Some []"
| "utf8_encode (c # cs) =
     (case utf8_char c of
        None \<Rightarrow> None
      | Some bs \<Rightarrow> (case utf8_encode cs of None \<Rightarrow> None | Some r \<Rightarrow> Some (bs @ r)))"

text \<open>
  \<open>json.dump(data, fh, ensure_ascii=False, indent=2)\<close> for a list of records.
  The encoder escapes the quote, the backslash and the control characters below 32 and
  leaves every other character as it is; it yields the text in chunks (one per
  bracket, separator, key and value), and each chunk is encoded and written in turn.
\<close>

definition hex_digit :: "nat \<Rightarrow> nat" where
  "hex_digit n = (if n < 10 then 48 + n else 87 + n)"

definition esc_char :: "nat \<Rightarrow> pystr" where
  "esc_char c =
     (if c = 92 then [92, 92]
      else if c = 34 then [92, 34]
      else if c = 8 then [92, 98]
      else if c = 12 then [92, 102]
      else if c = 10 then [92, 110]
      else if c = 13 then [92, 114]
      else if c = 9 then [92, 116]
      else if c < 32 then [92, 117, 48, 48, hex_digit (c div 16), hex_digit (c mod 16)]
      else [c])"

definition encode_basestring :: "pystr \<Rightarrow> pystr" where
  "encode_basestring s = 34 # concat (map esc_char s) @ [34]"

fun sep_chunks :: "pystr \<Rightarrow> pystr list list \<Rightarrow> pystr list" where
  "sep_chunks sep [] = []"
| "sep_chunks sep [x] = x"
| "sep_chunks sep (x # y # r) = x @ [sep] @ sep_chunks sep (y # r)"

definition iterencode_dict :: "pydict \<Rightarrow> pystr list" where
  "iterencode_dict d =
     (if d = [] then [u ''{}'']
      else [u ''{'', [10, 32, 32, 32, 32]]
           @ sep_chunks [44, 10, 32, 32, 32, 32]
               (map (\<lambda>(k, v). [encode_basestring k, u '': '', encode_basestring v]) d)
           @ [[10, 32, 32], u ''}''])"

definition iterencode_list :: "pydict list \<Rightarrow> pystr list" where
  "iterencode_list ds =
     (if ds = [] then [u ''[]'']
      else [[91, 10, 32, 32]]
           @ sep_chunks [44, 10, 32, 32] (map iterencode_dict ds)
           @ [[10], u '']''])"

fun write_chunks :: "pystr list \<Rightarrow> byte list \<Rightarrow> (error + unit) \<times> byte list" where
  "write_chunks [] buf = (Inr (), buf)"
| "write_chunks (c # cs) buf =
     (case utf8_encode c of
        None \<Rightarrow> (Inl UnicodeEncodeError, buf)
      | Some bs \<Rightarrow> write_chunks cs (buf @ bs))"

text \<open>
  \<open>_save_binary\<close> and \<open>_save_json\<close>. A path is the list of its components;
  directories are implicit (\<open>mkdir(parents=True, exist_ok=True)\<close>), and the output
  directory is taken to be writable. When the encoding fails, the file, truncated at
  \<open>open\<close>, is left with the chunks written before the error.
\<close>

definition save_binary ::
  "pystr list \<Rightarrow> byte list \<Rightarrow> pystr list \<Rightarrow> 'w state \<Rightarrow> pystr list \<times> 'w state" where
  "save_binary output_dir content rel_path st =
     (let file_path = output_dir @ rel_path
      in (file_path, st\<lparr>files := (files st)(file_path \<mapsto> content)\<rparr>))"

definition save_json ::
  "pystr list \<Rightarrow> pydict list \<Rightarrow> pystr list \<Rightarrow> 'w state \<Rightarrow> (error + pystr list) \<times> 'w state" where
  "save_json output_dir data rel_path st =
     (let file_path = output_dir @ rel_path
      in case write_chunks (iterencode_list data) [] of
           (Inl e, buf) \<Rightarrow> (Inl e, st\<lparr>files := (files st)(file_path \<mapsto> buf)\<rparr>)
         | (Inr _, buf) \<Rightarrow> (Inr file_path, st\<lparr>files := (files st)(file_path \<mapsto> buf)\<rparr>))"

text \<open>\<open>str(rel_path)\<close>: the components joined by a slash.\<close>

fun path_str :: "pystr list \<Rightarrow> pystr" where
  "path_str [] = u ''.''"
| "path_str [c] = c"
| "path_str (c # d # r) = c @ u ''/'' @ path_str (d # r)"

text \<open>
  \<open>sha1(data)\<close> is \<open>hashlib.sha1(data).hexdigest()\<close>; the library function is the
  parameter \<open>hexdigest\<close>.
\<close>

definition sha1 :: "(byte list \<Rightarrow> pystr) \<Rightarrow> byte list \<Rightarrow> pystr" where
  "sha1 hexdigest data = hexdigest data"

section \<open>The extractors\<close>

text \<open>
  What the HTML libraries hand to the extractors, already selected: an anchor
  matched by \<open>a[href$='.pdf']\<close> (its \<open>href\<close> and its stripped text), a results
  table (the stripped texts of its \<open>thead th\<close> cells and, for each \<open>tbody tr\<close>, of
  its \<open>td\<close> cells), and a listing card \<open>div.views-row\<close> (its text and its first
  \<open>a\<close> element, if any, with its \<open>href\<close>, if any, and its stripped text).
\<close>

record anchor =
  href :: pystr
  anchor_text :: pystr

record table =
  thead :: "pystr list"
  tbody :: "pystr list list"

record link =
  link_href :: "pystr option"
  link_text :: pystr

record card =
  card_text :: pystr
  card_link :: "link option"

text \<open>
  The libraries and the network are parameters of every extractor: the HTTP session,
  \<open>hashlib\<close>, the BeautifulSoup selections on a page text (\<open>a[href$='.pdf']\<close>,
  \<open>article a[href$='.pdf']\<close>, \<open>div.views-row\<close> and the party field), the rendering
  session of \<open>requests_html\<close> (GET, \<open>render\<close>, \<open>find("table")\<close>) and the Unicode
  tables.
\<close>

record 'w deps =
  http_get :: "'w getter"
  hexdigest :: "byte list \<Rightarrow> pystr"
  select_pdf_links :: "pystr \<Rightarrow> anchor list"
  select_article_pdf_links :: "pystr \<Rightarrow> anchor list"
  select_cards :: "pystr \<Rightarrow> card list"
  select_party :: "pystr \<Rightarrow> pystr option"
  render_tables :: "pystr \<Rightarrow> 'w \<Rightarrow> (error + table list) \<times> 'w"
  unicode :: ucd

subsection \<open>CommuneScraper\<close>

definition commune_BASE :: pystr where
  "commune_BASE = u ''https://communeguelmim.ma''"

definition MINUTES_SLUG :: pystr where
  "MINUTES_SLUG =
     [1575, 1604, 1605, 1580, 1604, 1587, 45, 1575, 1604, 1580, 1605, 1575, 1593, 1610, 47,
      1605, 1604, 1582, 1589, 45, 1605, 1602, 1585, 1585, 1575, 1578, 45, 1575, 1604, 1583,
      1608, 1585, 1575, 1578]"

definition BUDGETS_SLUG :: pystr where
  "BUDGETS_SLUG =
     [1575, 1604, 1605, 1610, 1586, 1575, 1606, 1610, 1577, 45, 1575, 1604, 1605, 1601, 1578,
      1608, 1581, 1577, 47, 1605, 1610, 1586, 1575, 1606, 1610, 1577, 45, 1575, 1604, 1605,
      1608, 1575, 1591, 1606]"

definition commune_url :: "pystr \<Rightarrow> pystr" where
  "commune_url slug = commune_BASE @ u ''/ar/'' @ slug"

text \<open>
  The absolute URL of a link, as both document loops compute it:
  \<open>a["href"] if a["href"].startswith("http") else f"{self.BASE}{a['href']}"\<close>.
\<close>

definition pdf_url_of :: "anchor \<Rightarrow> pystr" where
  "pdf_url_of a = (if startswith (href a) (u ''http'') then href a else commune_BASE @ href a)"

text \<open>
  The loop of \<open>_scrape_minutes\<close> over the links, with the index collected so far;
  an exhausted fetch leaves the loop with the error and the state reached.
\<close>

fun minutes_loop ::
  "'w deps \<Rightarrow> pystr list \<Rightarrow> anchor list \<Rightarrow> pydict list \<Rightarrow> 'w state
     \<Rightarrow> (error + pydict list) \<times> 'w state" where
  "minutes_loop d out [] index st = (Inr index, st)"
| "minutes_loop d out (a # links) index st =
     (let pdf_url = pdf_url_of a;
          title = anchor_text a
      in case safe_request (http_get d) pdf_url st of
           (Inl e, st1) \<Rightarrow> (Inl e, st1)
         | (Inr resp, st1) \<Rightarrow>
             (let pdf_bytes = resp_content resp;
                  digest = sha1 (hexdigest d) pdf_bytes;
                  rel_path = [u ''commune'', u ''minutes'', digest @ u ''.pdf''];
                  (file_path, st2) = save_binary out pdf_bytes rel_path st1
              in minutes_loop d out links
                   (index @ [[(u ''title'', title), (u ''source_url'', pdf_url),
                              (u ''sha1'', digest), (u ''file'', path_str rel_path)]])
                   st2))"

definition scrape_minutes :: "'w deps \<Rightarrow> pystr list \<Rightarrow> 'w state \<Rightarrow> (error + unit) \<times> 'w state" where
  "scrape_minutes d out st =
     (case safe_request (http_get d) (commune_url MINUTES_SLUG) st of
        (Inl e, st1) \<Rightarrow> (Inl e, st1)
      | (Inr resp, st1) \<Rightarrow>
          (case minutes_loop d out (select_pdf_links d (resp_text resp)) [] st1 of
             (Inl e, st2) \<Rightarrow> (Inl e, st2)
           | (Inr index, st2) \<Rightarrow>
               (case save_json out index [u ''commune'', u ''minutes_index.json''] st2 of
                  (Inl e, st3) \<Rightarrow> (Inl e, st3)
                | (Inr p, st3) \<Rightarrow> (Inr (), st3))))"

text \<open>The same for \<open>_scrape_budgets\<close>, with the year read off the URL.\<close>

fun budgets_loop ::
  "'w deps \<Rightarrow> pystr list \<Rightarrow> anchor list \<Rightarrow> pydict list \<Rightarrow> 'w state
     \<Rightarrow> (error + pydict list) \<times> 'w state" where
  "budgets_loop d out [] idx st = (Inr idx, st)"
| "budgets_loop d out (a # links) idx st =
     (let pdf_url = pdf_url_of a;
          year = (case search_d4 (unicode d) pdf_url of Some g \<Rightarrow> g | None \<Rightarrow> u ''unknown'')
      in case safe_request (http_get d) pdf_url st of
           (Inl e, st1) \<Rightarrow> (Inl e, st1)
         | (Inr resp, st1) \<Rightarrow>
             (let pdf_bytes = resp_content resp;
                  digest = sha1 (hexdigest d) pdf_bytes;
                  rel_path = [u ''commune'', u ''budgets'', digest @ u ''.pdf''];
                  (file_path, st2) = save_binary out pdf_bytes rel_path st1
              in budgets_loop d out links
                   (idx @ [[(u ''year'', year), (u ''source_url'', pdf_url),
                            (u ''sha1'', digest), (u ''file'', path_str rel_path)]])
                   st2))"

definition scrape_budgets :: "'w deps \<Rightarrow> pystr list \<Rightarrow> 'w state \<Rightarrow> (error + unit) \<times> 'w state" where
  "scrape_budgets d out st =
     (case safe_request (http_get d) (commune_url BUDGETS_SLUG) st of
        (Inl e, st1) \<Rightarrow> (Inl e, st1)
      | (Inr resp, st1) \<Rightarrow>
          (case budgets_loop d out (select_pdf_links d (resp_text resp)) [] st1 of
             (Inl e, st2) \<Rightarrow> (Inl e, st2)
           | (Inr idx, st2) \<Rightarrow>
               (case save_json out idx [u ''commune'', u ''budgets_index.json''] st2 of
                  (Inl e, st3) \<Rightarrow> (Inl e, st3)
                | (Inr p, st3) \<Rightarrow> (Inr (), st3))))"

subsection \<open>RegionScraper\<close>

definition region_BASE :: pystr where
  "region_BASE = u ''https://rgon.ma''"

definition region_sessions_url :: pystr where
  "region_sessions_url =
     region_BASE @ u ''/category/%D8%AF%D9%88%D8%B1%D8%A7%D8%AA-%D8%A7%D9%84%D9%85%D8%AC%D9%84%D8%B3''"

definition region_budgets_url :: pystr where
  "region_budgets_url =
     region_BASE @ u ''/category/%D9%85%D9%8A%D8%B2%D8%A7%D9%86%D9%8A%D8%A7%D8%AA''"

text \<open>The loops of \<open>_scrape_sessions\<close> and of the region's \<open>_scrape_budgets\<close>.\<close>

fun region_sessions_loop ::
  "'w deps \<Rightarrow> pystr list \<Rightarrow> anchor list \<Rightarrow> pydict list \<Rightarrow> 'w state
     \<Rightarrow> (error + pydict list) \<times> 'w state" where
  "region_sessions_loop d out [] idx st = (Inr idx, st)"
| "region_sessions_loop d out (a # links) idx st =
     (let pdf_url = href a;
          title = anchor_text a
      in case safe_request (http_get d) pdf_url st of
           (Inl e, st1) \<Rightarrow> (Inl e, st1)
         | (Inr resp, st1) \<Rightarrow>
             (let pdf_bytes = resp_content resp;
                  digest = sha1 (hexdigest d) pdf_bytes;
                  rel_path = [u ''region'', u ''sessions'', digest @ u ''.pdf''];
                  (file_path, st2) = save_binary out pdf_bytes rel_path st1
              in region_sessions_loop d out links
                   (idx @ [[(u ''title'', title), (u ''source_url'', pdf_url),
                            (u ''sha1'', digest), (u ''file'', path_str rel_path)]])
                   st2))"

definition region_scrape_sessions ::
  "'w deps \<Rightarrow> pystr list \<Rightarrow> 'w state \<Rightarrow> (error + unit) \<times> 'w state" where
  "region_scrape_sessions d out st =
     (case safe_request (http_get d) region_sessions_url st of
        (Inl e, st1) \<Rightarrow> (Inl e, st1)
      | (Inr resp, st1) \<Rightarrow>
          (case region_sessions_loop d out (select_article_pdf_links d (resp_text resp)) [] st1 of
             (Inl e, st2) \<Rightarrow> (Inl e, st2)
           | (Inr idx, st2) \<Rightarrow>
               (case save_json out idx [u ''region'', u ''sessions_index.json''] st2 of
                  (Inl e, st3) \<Rightarrow> (Inl e, st3)
                | (Inr p, st3) \<Rightarrow> (Inr (), st3))))"

fun region_budgets_loop ::
  "'w deps \<Rightarrow> pystr list \<Rightarrow> anchor list \<Rightarrow> pydict list \<Rightarrow> 'w state
     \<Rightarrow> (error + pydict list) \<times> 'w state" where
  "region_budgets_loop d out [] idx st = (Inr idx, st)"
| "region_budgets_loop d out (a # links) idx st =
     (let pdf_url = href a
      in case safe_request (http_get d) pdf_url st of
           (Inl e, st1) \<Rightarrow> (Inl e, st1)
         | (Inr resp, st1) \<Rightarrow>
             (let pdf_bytes = resp_content resp;
                  digest = sha1 (hexdigest d) pdf_bytes;
                  rel_path = [u ''region'', u ''budgets'', digest @ u ''.pdf''];
                  (file_path, st2) = save_binary out pdf_bytes rel_path st1
              in region_budgets_loop d out links
                   (idx @ [[(u ''source_url'', pdf_url), (u ''sha1'', digest),
                            (u ''file'', path_str rel_path)]])
                   st2))"

definition region_scrape_budgets ::
  "'w deps \<Rightarrow> pystr list \<Rightarrow> 'w state \<Rightarrow> (error + unit) \<times> 'w state" where
  "region_scrape_budgets d out st =
     (case safe_request (http_get d) region_budgets_url st of
        (Inl e, st1) \<Rightarrow> (Inl e, st1)
      | (Inr resp, st1) \<Rightarrow>
          (case region_budgets_loop d out (select_article_pdf_links d (resp_text resp)) [] st1 of
             (Inl e, st2) \<Rightarrow> (Inl e, st2)
           | (Inr idx, st2) \<Rightarrow>
               (case save_json out idx [u ''region'', u ''budgets_index.json''] st2 of
                  (Inl e, st3) \<Rightarrow> (Inl e, st3)
                | (Inr p, st3) \<Rightarrow> (Inr (), st3))))"

subsection \<open>ElectionsScraper\<close>

text \<open>\<open>str(n)\<close> of an integer, as the f-strings format the year.\<close>

function nat_digits :: "nat \<Rightarrow> pystr" where
  "nat_digits n = (if n < 10 then [48 + n] else nat_digits (n div 10) @ [48 + n mod 10])"
  by pat_completeness auto
termination
  by (relation "measure id") auto

definition str_int :: "int \<Rightarrow> pystr" where
  "str_int i = (if i < 0 then 45 # nat_digits (nat (- i)) else nat_digits (nat i))"

text \<open>The two nested loops of \<open>ElectionsScraper.run\<close> over the tables and their rows.\<close>

fun rows_loop :: "pystr \<Rightarrow> pystr list \<Rightarrow> pystr list list \<Rightarrow> pydict list \<Rightarrow> pydict list" where
  "rows_loop url headers [] results = results"
| "rows_loop url headers (cells # rows) results =
     (if length cells \<noteq> length headers then rows_loop url headers rows results
      else rows_loop url headers rows
             (results @ [dict_set (dict_of_pairs (zip headers cells)) (u ''source_url'') url]))"

fun tables_loop :: "pystr \<Rightarrow> table list \<Rightarrow> pydict list \<Rightarrow> pydict list" where
  "tables_loop url [] results = results"
| "tables_loop url (tbl # tables) results =
     tables_loop url tables (rows_loop url (thead tbl) (tbody tbl) results)"

definition elections_url :: "int \<Rightarrow> pystr \<Rightarrow> pystr" where
  "elections_url year province =
     u ''https://www.elections.ma/elections/communales/resultats?province=''
       @ province @ u ''&annee='' @ str_int year"

definition elections_run ::
  "'w deps \<Rightarrow> pystr list \<Rightarrow> int \<Rightarrow> pystr \<Rightarrow> 'w state \<Rightarrow> (error + unit) \<times> 'w state" where
  "elections_run d out year province st =
     (let url = elections_url year province
      in case render_tables d url (world st) of
           (Inl e, w') \<Rightarrow> (Inl e, st\<lparr>world := w'\<rparr>)
         | (Inr tables, w') \<Rightarrow>
             if tables = []
             then (Inl (RuntimeError (u ''No table found '' @ [8211] @ u '' did the site change?'')),
                   st\<lparr>world := w'\<rparr>)
             else
               (case save_json out (tables_loop url tables [])
                       [u ''elections_'' @ str_int year @ u ''_''
                          @ slugify (unicode d) province @ u ''.json'']
                       (st\<lparr>world := w'\<rparr>) of
                  (Inl e, st') \<Rightarrow> (Inl e, st')
                | (Inr p, st') \<Rightarrow> (Inr (), st')))"

subsection \<open>ParliamentScraper\<close>




text \<open>
  Dependencies for concrete runs: a scripted network, fixed page contents and, in the
  place of the digest, the hexadecimal dump of the bytes.
\<close>

definition hex_dump :: "byte list \<Rightarrow> pystr" where
  "hex_dump bs = concat (map (\<lambda>b. [hex_digit (unat b div 16), hex_digit (unat b mod 16)]) bs)"

definition test_deps ::
  "anchor list \<Rightarrow> card list \<Rightarrow> table list \<Rightarrow> (pystr + response) list deps" where
  "test_deps links cards tables =
     \<lparr>http_get = scripted,
      hexdigest = hex_dump,
      select_pdf_links = (\<lambda>page. links),
      select_article_pdf_links = (\<lambda>page. links),
      select_cards = (\<lambda>page. cards),
      select_party = (\<lambda>page. if page = [] then None else Some page),
      render_tables = (\<lambda>url w. (Inr tables, w)),
      unicode = latin1_ucd\<rparr>"

section \<open>The four document-downloading runs, for the statements\<close>

text \<open>
  The sub-extractions that download documents are \<open>_scrape_minutes\<close> and
  \<open>_scrape_budgets\<close> of the commune and \<open>_scrape_sessions\<close> and
  \<open>_scrape_budgets\<close> of the region. For each of them: the listing page, the links
  selected on it, the URL fetched for a link, the directory of the binaries, the path
  of the index, its loop and the run itself.
\<close>

datatype doc_run = CommuneMinutes | CommuneBudgets | RegionSessions | RegionBudgets

fun listing_url :: "doc_run \<Rightarrow> pystr" where
  "listing_url CommuneMinutes = commune_url MINUTES_SLUG"
| "listing_url CommuneBudgets = commune_url BUDGETS_SLUG"
| "listing_url RegionSessions = region_sessions_url"
| "listing_url RegionBudgets = region_budgets_url"

fun doc_links :: "doc_run \<Rightarrow> 'w deps \<Rightarrow> pystr \<Rightarrow> anchor list" where
  "doc_links CommuneMinutes d page = select_pdf_links d page"
| "doc_links CommuneBudgets d page = select_pdf_links d page"
| "doc_links RegionSessions d page = select_article_pdf_links d page"
| "doc_links RegionBudgets d page = select_article_pdf_links d page"

fun doc_url :: "doc_run \<Rightarrow> anchor \<Rightarrow> pystr" where
  "doc_url CommuneMinutes a = pdf_url_of a"
| "doc_url CommuneBudgets a = pdf_url_of a"
| "doc_url RegionSessions a = href a"
| "doc_url RegionBudgets a = href a"

fun doc_dir :: "doc_run \<Rightarrow> pystr list" where
  "doc_dir CommuneMinutes = [u ''commune'', u ''minutes'']"
| "doc_dir CommuneBudgets = [u ''commune'', u ''budgets'']"
| "doc_dir RegionSessions = [u ''region'', u ''sessions'']"
| "doc_dir RegionBudgets = [u ''region'', u ''budgets'']"

fun index_path :: "doc_run \<Rightarrow> pystr list" where
  "index_path CommuneMinutes = [u ''commune'', u ''minutes_index.json'']"
| "index_path CommuneBudgets = [u ''commune'', u ''budgets_index.json'']"
| "index_path RegionSessions = [u ''region'', u ''sessions_index.json'']"
| "index_path RegionBudgets = [u ''region'', u ''budgets_index.json'']"

fun doc_loop ::
  "doc_run \<Rightarrow> 'w deps \<Rightarrow> pystr list \<Rightarrow> anchor list \<Rightarrow> pydict list \<Rightarrow> 'w state
     \<Rightarrow> (error + pydict list) \<times> 'w state" where
  "doc_loop CommuneMinutes = minutes_loop"
| "doc_loop CommuneBudgets = budgets_loop"
| "doc_loop RegionSessions = region_sessions_loop"
| "doc_loop RegionBudgets = region_budgets_loop"

fun scrape_docs :: "doc_run \<Rightarrow> 'w deps \<Rightarrow> pystr list \<Rightarrow> 'w state \<Rightarrow> (error + unit) \<times> 'w state" where
  "scrape_docs CommuneMinutes = scrape_minutes"
| "scrape_docs CommuneBudgets = scrape_budgets"
| "scrape_docs RegionSessions = region_scrape_sessions"
| "scrape_docs RegionBudgets = region_scrape_budgets"

text \<open>
  What the network gives when the URLs are fetched one after the other with
  \<open>safe_request\<close>, up to the first exhausted fetch: the bodies received, the error
  if there was one, and the state reached.
\<close>

fun fetch_all ::
  "'w getter \<Rightarrow> pystr list \<Rightarrow> 'w state \<Rightarrow> byte list list \<times> error option \<times> 'w state" where
  "fetch_all get [] st = ([], None, st)"
| "fetch_all get (url # urls) st =
     (case safe_request get url st of
        (Inl e, st1) \<Rightarrow> ([], Some e, st1)
      | (Inr resp, st1) \<Rightarrow>
          (case fetch_all get urls st1 of
             (bodies, err, st2) \<Rightarrow> (resp_content resp # bodies, err, st2)))"

text \<open>The store after the bodies were written, each under the name of its digest.\<close>

definition stored ::
  "(byte list \<Rightarrow> pystr) \<Rightarrow> pystr list \<Rightarrow> (pystr list \<rightharpoonup> byte list) \<Rightarrow> byte list list
     \<Rightarrow> (pystr list \<rightharpoonup> byte list)" where
  "stored h dir fs bodies =
     foldl (\<lambda>f b. f(dir @ [sha1 h b @ u ''.pdf''] \<mapsto> b)) fs bodies"

text \<open>
  The shape the four loops share, to prove their properties once: \<open>url\<close> gives
  the URL fetched for a link, \<open>dir\<close> is the directory of the binaries and \<open>mk\<close>
  builds the record of a link from its digest.
\<close>

fun download_loop ::
  "(anchor \<Rightarrow> pystr) \<Rightarrow> pystr list \<Rightarrow> (anchor \<Rightarrow> pystr \<Rightarrow> pydict) \<Rightarrow> 'w deps \<Rightarrow> pystr list
     \<Rightarrow> anchor list \<Rightarrow> pydict list \<Rightarrow> 'w state \<Rightarrow> (error + pydict list) \<times> 'w state" where
  "download_loop url dir mk d out [] idx st = (Inr idx, st)"
| "download_loop url dir mk d out (a # links) idx st =
     (case safe_request (http_get d) (url a) st of
        (Inl e, st1) \<Rightarrow> (Inl e, st1)
      | (Inr resp, st1) \<Rightarrow>
          download_loop url dir mk d out links
            (idx @ [mk a (sha1 (hexdigest d) (resp_content resp))])
            (st1\<lparr>files := (files st1)
                (out @ dir @ [sha1 (hexdigest d) (resp_content resp) @ u ''.pdf'']
                   \<mapsto> resp_content resp)\<rparr>))"

section \<open>Reading an index back\<close>

text \<open>
  The reader against which a written index is checked: the file is decoded as UTF-8
  (strictly: no overlong form, no surrogate, nothing beyond 1114111) and parsed as JSON
  (RFC 8259: white space, the six structural characters, strings with their escapes,
  a surrogate pair of \<open>\u\<close> escapes read as one code point, as \<open>json.load\<close> does).
  It reads what an index is, an array of objects whose values are strings, into the
  list of records, building each \<open>dict\<close> key by key; any other text is rejected.
\<close>

definition cont_byte :: "byte \<Rightarrow> bool" where
  "cont_byte b = (128 \<le> unat b \<and> unat b < 192)"

text \<open>The first code point of a byte string and the number of its continuation bytes.\<close>

definition utf8_first :: "byte list \<Rightarrow> (nat \<times> nat) option" where
  "utf8_first bs =
     (case bs of
        [] \<Rightarrow> None
      | b0 # r \<Rightarrow>
          (let n = unat b0 in
           if n < 128 then Some (n, 0)
           else if 194 \<le> n \<and> n < 224 then
             (case r of
                b1 # _ \<Rightarrow>
                  if cont_byte b1 then Some ((n - 192) * 64 + (unat b1 - 128), 1) else None
              | _ \<Rightarrow> None)
           else if 224 \<le> n \<and> n < 240 then
             (case r of
                b1 # b2 # _ \<Rightarrow>
                  (let c = (n - 224) * 4096 + (unat b1 - 128) * 64 + (unat b2 - 128) in
                   if cont_byte b1 \<and> cont_byte b2 \<and> 2048 \<le> c \<and> \<not> (55296 \<le> c \<and> c < 57344)
                   then Some (c, 2) else None)
              | _ \<Rightarrow> None)
           else if 240 \<le> n \<and> n < 245 then
             (case r of
                b1 # b2 # b3 # _ \<Rightarrow>
                  (let c = (n - 240) * 262144 + (unat b1 - 128) * 4096
                             + (unat b2 - 128) * 64 + (unat b3 - 128) in
                   if cont_byte b1 \<and> cont_byte b2 \<and> cont_byte b3 \<and> 65536 \<le> c \<and> c < 1114112
                   then Some (c, 3) else None)
              | _ \<Rightarrow> None)
           else None))"

function utf8_decode :: "byte list \<Rightarrow> pystr option" where
  "utf8_decode bs =
     (if bs = [] then Some []
      else case utf8_first bs of
             None \<Rightarrow> None
           | Some (c, k) \<Rightarrow> map_option ((#) c) (utf8_decode (drop (Suc k) bs)))"
  by pat_completeness auto
termination
  by (relation "measure length") (auto simp: Suc_diff_le diff_less)

declare utf8_decode.simps [simp del]

datatype token = LBracket | RBracket | LBrace | RBrace | Colon | Comma | Str pystr

definition hex_val :: "nat \<Rightarrow> nat option" where
  "hex_val c =
     (if 48 \<le> c \<and> c \<le> 57 then Some (c - 48)
      else if 97 \<le> c \<and> c \<le> 102 then Some (c - 87)
      else if 65 \<le> c \<and> c \<le> 70 then Some (c - 55)
      else None)"

definition hex4 :: "pystr \<Rightarrow> nat option" where
  "hex4 s =
     (case s of
        [a, b, c, d] \<Rightarrow>
          (case (hex_val a, hex_val b, hex_val c, hex_val d) of
             (Some w, Some x, Some y, Some z) \<Rightarrow> Some (w * 4096 + x * 256 + y * 16 + z)
           | _ \<Rightarrow> None)
      | _ \<Rightarrow> None)"

definition unescape :: "nat \<Rightarrow> nat option" where
  "unescape e =
     (if e = 34 then Some 34 else if e = 92 then Some 92 else if e = 47 then Some 47
      else if e = 98 then Some 8 else if e = 102 then Some 12 else if e = 110 then Some 10
      else if e = 114 then Some 13 else if e = 116 then Some 9 else None)"

text \<open>
  The string after its opening quote: the characters it denotes and the text after
  its closing quote.
\<close>

definition cons_char :: "nat \<Rightarrow> (pystr \<times> pystr) option \<Rightarrow> (pystr \<times> pystr) option" where
  "cons_char c r = (case r of None \<Rightarrow> None | Some (s, rest) \<Rightarrow> Some (c # s, rest))"

function scan_string :: "pystr \<Rightarrow> (pystr \<times> pystr) option" where
  "scan_string [] = None"
| "scan_string (c # cs) =
     (if c = 34 then Some ([], cs)
      else if c = 92 then
        (if cs = [] then None
         else if hd cs = 117 then
           (case hex4 (take 4 (tl cs)) of
              None \<Rightarrow> None
            | Some v \<Rightarrow>
                if 55296 \<le> v \<and> v < 56320 \<and> take 2 (drop 5 cs) = [92, 117] then
                  (case hex4 (take 4 (drop 7 cs)) of
                     None \<Rightarrow> None
                   | Some w \<Rightarrow>
                       if 56320 \<le> w \<and> w < 57344
                       then cons_char (65536 + (v - 55296) * 1024 + (w - 56320))
                              (scan_string (drop 11 cs))
                       else cons_char v (scan_string (drop 5 cs)))
                else cons_char v (scan_string (drop 5 cs)))
         else
           (case unescape (hd cs) of
              None \<Rightarrow> None
            | Some v \<Rightarrow> cons_char v (scan_string (tl cs))))
      else if c < 32 then None
      else cons_char c (scan_string cs))"
  by pat_completeness auto
termination
  by (relation "measure length") auto

declare scan_string.simps(2) [simp del]

lemma cons_char_Some:
  "cons_char c r = Some (x, rest) \<Longrightarrow> \<exists>s. r = Some (s, rest) \<and> x = c # s"
  by (auto simp: cons_char_def split: option.splits)

lemma scan_string_rest: "scan_string s = Some (x, rest) \<Longrightarrow> length rest \<le> length s"
proof (induction "length s" arbitrary: s x rule: less_induct)
  case less
  show ?case
  proof (cases s)
    case Nil
    with less.prems show ?thesis by simp
  next
    case (Cons c cs)
    have H: "length rest \<le> length cs" if "scan_string t = Some (y, rest)" "length t \<le> length cs"
      for t y
    proof -
      from that(2) Cons have "length t < length s" by simp
      from less.hyps [OF this that(1)] that(2) show ?thesis by simp
    qed
    from less.prems Cons have "length rest \<le> length cs"
      unfolding Cons scan_string.simps(2) [of c cs]
      by (auto split: if_splits option.splits dest!: cons_char_Some intro: H)
    with Cons show ?thesis by simp
  qed
qed

function tokenize :: "pystr \<Rightarrow> token list option" where
  "tokenize [] = Some []"
| "tokenize (c # cs) =
     (if c = 32 \<or> c = 9 \<or> c = 10 \<or> c = 13 then tokenize cs
      else if c = 91 then map_option ((#) LBracket) (tokenize cs)
      else if c = 93 then map_option ((#) RBracket) (tokenize cs)
      else if c = 123 then map_option ((#) LBrace) (tokenize cs)
      else if c = 125 then map_option ((#) RBrace) (tokenize cs)
      else if c = 58 then map_option ((#) Colon) (tokenize cs)
      else if c = 44 then map_option ((#) Comma) (tokenize cs)
      else if c = 34 then
        (case scan_string cs of
           None \<Rightarrow> None
         | Some (s, rest) \<Rightarrow> map_option ((#) (Str s)) (tokenize rest))
      else None)"
  by pat_completeness auto
termination
  by (relation "measure length") (auto dest: scan_string_rest simp: less_Suc_eq_le)

declare tokenize.simps(2) [simp del]

text \<open>The members of an object after its opening brace, then objects and arrays.\<close>

fun parse_members :: "token list \<Rightarrow> pydict \<Rightarrow> (pydict \<times> token list) option" where
  "parse_members ts acc =
     (case ts of
        Str k # Colon # Str v # Comma # rest \<Rightarrow> parse_members rest (dict_set acc k v)
      | Str k # Colon # Str v # RBrace # rest \<Rightarrow> Some (dict_set acc k v, rest)
      | _ \<Rightarrow> None)"

declare parse_members.simps [simp del]

definition parse_object :: "token list \<Rightarrow> (pydict \<times> token list) option" where
  "parse_object ts =
     (case ts of
        LBrace # RBrace # rest \<Rightarrow> Some ([], rest)
      | LBrace # rest \<Rightarrow> parse_members rest []
      | _ \<Rightarrow> None)"

lemma parse_members_rest:
  "parse_members ts acc = Some (d, rest) \<Longrightarrow> length rest < length ts"
proof (induction ts acc rule: parse_members.induct)
  case (1 ts acc)
  from "1.prems" show ?case
    unfolding parse_members.simps [of ts acc]
    by (auto split: list.splits token.splits dest!: "1.IH")
qed

lemma parse_object_rest:
  "parse_object ts = Some (d, rest) \<Longrightarrow> length rest < length ts"
  by (auto simp: parse_object_def split: list.splits token.splits dest!: parse_members_rest)

function parse_elements :: "token list \<Rightarrow> pydict list \<Rightarrow> pydict list option" where
  "parse_elements ts acc =
     (case parse_object ts of
        None \<Rightarrow> None
      | Some (d, rest) \<Rightarrow>
          (case rest of
             [RBracket] \<Rightarrow> Some (acc @ [d])
           | Comma # rest' \<Rightarrow> parse_elements rest' (acc @ [d])
           | _ \<Rightarrow> None))"
  by pat_completeness auto
termination
  by (relation "measure (\<lambda>(ts, acc). length ts)") (auto dest: parse_object_rest)

declare parse_elements.simps [simp del]

definition json_loads :: "pystr \<Rightarrow> pydict list option" where
  "json_loads text =
     (case tokenize text of
        None \<Rightarrow> None
      | Some ts \<Rightarrow>
          (case ts of
             [LBracket, RBracket] \<Rightarrow> Some []
           | LBracket # rest \<Rightarrow> parse_elements rest []
           | _ \<Rightarrow> None))"

definition load_index :: "byte list \<Rightarrow> pydict list option" where
  "load_index bytes =
     (case utf8_decode bytes of None \<Rightarrow> None | Some text \<Rightarrow> json_loads text)"

text \<open>A string of Unicode scalar values: what UTF-8 can encode.\<close>

definition scalar :: "nat \<Rightarrow> bool" where
  "scalar c = (c < 55296 \<or> (57344 \<le> c \<and> c < 1114112))"

definition well_formed :: "pydict list \<Rightarrow> bool" where
  "well_formed ds =
     (\<forall>d \<in> set ds. distinct (map fst d)
        \<and> (\<forall>(k, v) \<in> set d. (\<forall>c \<in> set k. scalar c) \<and> (\<forall>c \<in> set v. scalar c)))"


section \<open>Properties of the retrying fetch\<close>

lemma range3: "[0..<3] = [0, Suc 0, Suc (Suc 0)]"
  by (simp add: upt_rec)

lemma replicate_small:
  "replicate 2 x = [x, x]" "replicate 3 x = [x, x, x]"
  by (simp_all add: numeral_2_eq_2 numeral_3_eq_3)

text \<open>
  C1. For every URL the retrying fetch issues at most three GET requests and returns
  the response of the first attempt that succeeds; after a failed attempt number \<open>k\<close>
  it sleeps \<open>3 * k\<close> before the next attempt, so a dependency that fails twice and
  then succeeds gives the success response after exactly the two waits 3 and 6; when
  all three attempts fail the call raises an error whose message names the URL.
  The three attempts are \<open>a1\<close>, \<open>a2\<close>, \<open>a3\<close>, each made in the world the previous
  one left.
\<close>

theorem safe_request_retries:
  assumes a1: "a1 = get url (world st)"
      and a2: "a2 = get url (snd a1)"
      and a3: "a3 = get url (snd a2)"
      and run: "safe_request get url st = (res, st')"
  shows "(\<exists>n \<in> {1, 2, 3}. requests st' = requests st @ replicate n url)
       \<and> (fst a1 = Inr r \<longrightarrow>
            res = Inr r \<and> requests st' = requests st @ [url] \<and> sleeps st' = sleeps st)
       \<and> (isl (fst a1) \<and> fst a2 = Inr r \<longrightarrow>
            res = Inr r \<and> requests st' = requests st @ [url, url]
            \<and> sleeps st' = sleeps st @ [3])
       \<and> (isl (fst a1) \<and> isl (fst a2) \<and> fst a3 = Inr r \<longrightarrow>
            res = Inr r \<and> requests st' = requests st @ [url, url, url]
            \<and> sleeps st' = sleeps st @ [3, 6])
       \<and> (isl (fst a1) \<and> isl (fst a2) \<and> isl (fst a3) \<longrightarrow>
            res = Inl (RuntimeError (u ''Failed to fetch '' @ url @ u '' after 3 attempts''))
            \<and> requests st' = requests st @ [url, url, url])"
proof (cases a1)
  case p1: (Pair o1 w1)
  show ?thesis
  proof (cases o1)
    case (Inr r1)
    with p1 a1 run show ?thesis
      by (auto simp: safe_request_def range3 replicate_small split: prod.splits)
  next
    case l1: (Inl e1)
    show ?thesis
    proof (cases a2)
      case p2: (Pair o2 w2)
      show ?thesis
      proof (cases o2)
        case (Inr r2)
        with p1 l1 p2 a1 a2 run show ?thesis
          by (auto simp: safe_request_def range3 replicate_small split: prod.splits)
      next
        case l2: (Inl e2)
        show ?thesis
        proof (cases a3)
          case p3: (Pair o3 w3)
          show ?thesis
          proof (cases o3)
            case (Inr r3)
            with p1 l1 p2 l2 p3 a1 a2 a3 run show ?thesis
              by (auto simp: safe_request_def range3 replicate_small split: prod.splits)
          next
            case (Inl e3)
            with p1 l1 p2 l2 p3 a1 a2 a3 run show ?thesis
              by (auto simp: safe_request_def range3 replicate_small split: prod.splits)
          qed
        qed
      qed
    qed
  qed
qed

theorem safe_request_retries_witness:
  "safe_request scripted (u ''http://x/a.pdf'')
      (init_state [Inl (u ''timeout''), Inl (u ''503''), Inr \<lparr>resp_text = u ''ok'', resp_content = []\<rparr>])
     = (Inr \<lparr>resp_text = u ''ok'', resp_content = []\<rparr>,
        \<lparr>world = [],
         requests = [u ''http://x/a.pdf'', u ''http://x/a.pdf'', u ''http://x/a.pdf''],
         sleeps = [3, 6],
         warnings = [(u ''timeout'', 1), (u ''503'', 2)],
         files = Map.empty\<rparr>)
   \<and> sleeps (snd (safe_request scripted (u ''http://x/a.pdf'')
      (init_state [Inl (u ''timeout''), Inl (u ''503''), Inr \<lparr>resp_text = u ''ok'', resp_content = []\<rparr>])))
     = sleeps (init_state ([] :: (pystr + response) list)) @ [3, 6]"
  using safe_request_retries [of
      "scripted (u ''http://x/a.pdf'')
         [Inl (u ''timeout''), Inl (u ''503''), Inr \<lparr>resp_text = u ''ok'', resp_content = []\<rparr>]"
      scripted "u ''http://x/a.pdf''"
      "init_state [Inl (u ''timeout''), Inl (u ''503''), Inr \<lparr>resp_text = u ''ok'', resp_content = []\<rparr>]"
      "scripted (u ''http://x/a.pdf'') [Inl (u ''503''), Inr \<lparr>resp_text = u ''ok'', resp_content = []\<rparr>]"
      "scripted (u ''http://x/a.pdf'') [Inr \<lparr>resp_text = u ''ok'', resp_content = []\<rparr>]"
      "fst (safe_request scripted (u ''http://x/a.pdf'')
         (init_state [Inl (u ''timeout''), Inl (u ''503''), Inr \<lparr>resp_text = u ''ok'', resp_content = []\<rparr>]))"
      "snd (safe_request scripted (u ''http://x/a.pdf'')
         (init_state [Inl (u ''timeout''), Inl (u ''503''), Inr \<lparr>resp_text = u ''ok'', resp_content = []\<rparr>]))"
      "\<lparr>resp_text = u ''ok'', resp_content = []\<rparr>"]
  by (simp add: safe_request_def range3 scripted_def init_state_def)

text \<open>
  C10. When all three attempts fail, the retrying fetch has slept three times, for
  3, 6 and 9 time units, the last of them after the final failed attempt, before it
  raises the terminal error.
\<close>

theorem safe_request_exhausted_sleeps:
  assumes a1: "get url (world st) = (Inl e1, w1)"
      and a2: "get url w1 = (Inl e2, w2)"
      and a3: "get url w2 = (Inl e3, w3)"
  shows "safe_request get url st =
           (Inl (RuntimeError (u ''Failed to fetch '' @ url @ u '' after 3 attempts'')),
            st\<lparr>world := w3,
               requests := requests st @ [url, url, url],
               warnings := warnings st @ [(e1, 1), (e2, 2), (e3, 3)],
               sleeps := sleeps st @ [3, 6, 9]\<rparr>)"
  using a1 a2 a3 by (simp add: safe_request_def range3)

theorem safe_request_exhausted_sleeps_witness:
  "safe_request scripted (u ''http://x/'') (init_state [])
     = (Inl (RuntimeError (u ''Failed to fetch '' @ u ''http://x/'' @ u '' after 3 attempts'')),
        \<lparr>world = [],
         requests = [u ''http://x/'', u ''http://x/'', u ''http://x/''],
         sleeps = [3, 6, 9],
         warnings = [(u ''connection refused'', 1), (u ''connection refused'', 2),
                     (u ''connection refused'', 3)],
         files = Map.empty\<rparr>)"
  using safe_request_exhausted_sleeps [of scripted "u ''http://x/''" "init_state []"
      "u ''connection refused''" "[]" "u ''connection refused''" "[]" "u ''connection refused''" "[]"]
  by (simp add: scripted_def init_state_def)

section \<open>Properties of the slug\<close>

lemma re_sub_runs_set: "set (re_sub_runs m s) \<subseteq> {c \<in> set s. \<not> m c} \<union> {45}"
proof (induction m s rule: re_sub_runs.induct)
  case (1 m)
  show ?case by simp
next
  case (2 m c cs)
  show ?case
  proof (cases "m c")
    case True
    with 2 have "set (re_sub_runs m (dropWhile m cs)) \<subseteq> {x \<in> set (dropWhile m cs). \<not> m x} \<union> {45}"
      by simp
    moreover have "set (dropWhile m cs) \<subseteq> set cs"
      by (auto dest: set_dropWhileD)
    ultimately show ?thesis using True by auto
  next
    case False
    with 2 show ?thesis by auto
  qed
qed

lemma re_sub_runs_id: "\<forall>c \<in> set s. \<not> m c \<Longrightarrow> re_sub_runs m s = s"
  by (induction s) auto

lemma re_sub_runs_hd:
  "re_sub_runs (\<lambda>c. c = 45) s = 45 # r \<Longrightarrow> \<exists>t. s = 45 # t"
  by (cases s) (auto split: if_splits)

lemma dropWhile_not_hd: "dropWhile P s \<noteq> x # t \<or> \<not> P x"
  by (metis hd_dropWhile list.sel(1) list.distinct(1))

lemma collapse_no_double: "\<not> double_hyphen (re_sub_runs (\<lambda>c. c = 45) s)"
proof -
  have "re_sub_runs m s \<noteq> p @ 45 # 45 # q" if "m = (\<lambda>c. c = 45)" for m p q
    using that
  proof (induction m s arbitrary: p rule: re_sub_runs.induct)
    case (1 m)
    show ?case by simp
  next
    case (2 m c cs)
    show ?case
    proof (cases "m c")
      case True
      show ?thesis
      proof (cases p)
        case Nil
        have "re_sub_runs m (dropWhile m cs) \<noteq> 45 # q"
        proof
          assume "re_sub_runs m (dropWhile m cs) = 45 # q"
          then obtain t where "dropWhile m cs = 45 # t"
            using re_sub_runs_hd 2(3) by blast
          then show False using dropWhile_not_hd [of m cs 45 t] 2(3) by simp
        qed
        with True Nil show ?thesis by simp
      next
        case (Cons a p')
        with 2(1) [OF True 2(3), of p'] True show ?thesis by simp
      qed
    next
      case False
      then have c: "c \<noteq> 45" using 2(3) by simp
      show ?thesis
      proof (cases p)
        case Nil
        with False c show ?thesis by simp
      next
        case (Cons a p')
        with 2(2) [OF False 2(3), of p'] False show ?thesis by simp
      qed
    qed
  qed
  then show ?thesis by (auto simp: double_hyphen_def)
qed

lemma double_hyphen_Cons: "double_hyphen cs \<Longrightarrow> double_hyphen (c # cs)"
  unfolding double_hyphen_def by (metis append_Cons)

lemma no_double_fixed: "\<not> double_hyphen s \<Longrightarrow> re_sub_runs (\<lambda>c. c = 45) s = s"
proof (induction s)
  case Nil
  show ?case by simp
next
  case (Cons c cs)
  then have ih: "re_sub_runs (\<lambda>c. c = 45) cs = cs"
    using double_hyphen_Cons by blast
  show ?case
  proof (cases "c = 45")
    case True
    have "dropWhile (\<lambda>c. c = 45) cs = cs"
    proof (cases cs)
      case Nil
      then show ?thesis by simp
    next
      case (Cons d ds)
      have "d \<noteq> 45"
      proof
        assume "d = 45"
        with True Cons have "c # cs = [] @ 45 # 45 # ds" by simp
        then have "double_hyphen (c # cs)" unfolding double_hyphen_def by blast
        with Cons.prems show False by simp
      qed
      with Cons show ?thesis by simp
    qed
    with True ih show ?thesis by simp
  next
    case False
    with ih show ?thesis by simp
  qed
qed

lemma no_double_part: "\<not> double_hyphen (p @ s @ q) \<Longrightarrow> \<not> double_hyphen s"
proof (rule notI)
  assume a: "\<not> double_hyphen (p @ s @ q)" and "double_hyphen s"
  then obtain p' q' where "s = p' @ 45 # 45 # q'" by (auto simp: double_hyphen_def)
  then have "p @ s @ q = (p @ p') @ 45 # 45 # (q' @ q)" by simp
  then have "double_hyphen (p @ s @ q)" unfolding double_hyphen_def by blast
  with a show False by simp
qed

lemma py_strip_part: "\<exists>p q. s = p @ py_strip ch s @ q"
proof -
  let ?P = "\<lambda>c. c = ch"
  let ?d = "dropWhile ?P s"
  have "?d = rev (takeWhile ?P (rev ?d) @ dropWhile ?P (rev ?d))"
    by (simp only: takeWhile_dropWhile_id rev_rev_ident)
  also have "\<dots> = rev (dropWhile ?P (rev ?d)) @ rev (takeWhile ?P (rev ?d))"
    by (rule rev_append)
  finally have "?d = py_strip ch s @ rev (takeWhile ?P (rev ?d))"
    by (simp only: py_strip_def)
  moreover have "s = takeWhile ?P s @ ?d" by simp
  ultimately have "s = takeWhile ?P s @ py_strip ch s @ rev (takeWhile ?P (rev ?d))"
    by simp
  then show ?thesis by blast
qed

lemma py_strip_set: "set (py_strip ch s) \<subseteq> set s"
  using py_strip_part [of s ch] by (metis Un_iff set_append subsetI)

lemma py_strip_ends:
  "py_strip ch s = [] \<or> (hd (py_strip ch s) \<noteq> ch \<and> last (py_strip ch s) \<noteq> ch)"
proof (cases "py_strip ch s = []")
  case True
  then show ?thesis by simp
next
  case False
  let ?P = "\<lambda>c. c = ch"
  let ?d = "dropWhile ?P s"
  let ?e = "dropWhile ?P (rev ?d)"
  have e: "?e \<noteq> []"
    using False unfolding py_strip_def rev_is_Nil_conv .
  have d: "?d \<noteq> []"
  proof
    assume "?d = []"
    then have "?e = []" by (simp only: rev.simps dropWhile.simps)
    with e show False by (rule notE)
  qed
  have l: "last (py_strip ch s) \<noteq> ch"
    using e hd_dropWhile [of ?P "rev ?d"] by (simp add: py_strip_def last_rev)
  have "hd (rev ?e) = hd ?d"
  proof -
    have "rev ?d = takeWhile ?P (rev ?d) @ ?e" by simp
    then have "?d = rev ?e @ rev (takeWhile ?P (rev ?d))"
      by (metis rev_append rev_rev_ident)
    then show ?thesis using e by (metis hd_append2 rev_is_Nil_conv)
  qed
  moreover have "hd ?d \<noteq> ch" using d hd_dropWhile [of ?P s] by simp
  ultimately have "hd (py_strip ch s) \<noteq> ch" by (simp add: py_strip_def)
  with l show ?thesis by simp
qed

lemma py_strip_fixed:
  assumes "s = [] \<or> (hd s \<noteq> ch \<and> last s \<noteq> ch)"
  shows "py_strip ch s = s"
proof (cases s)
  case Nil
  then show ?thesis by (simp add: py_strip_def)
next
  case (Cons a t)
  with assms have h: "a \<noteq> ch" and l: "last s \<noteq> ch" by auto
  from h Cons have 1: "dropWhile (\<lambda>c. c = ch) s = s" by simp
  from Cons have "s \<noteq> []" by simp
  then have "hd (rev s) = last s" by (simp only: hd_rev)
  with l have "hd (rev s) \<noteq> ch" by simp
  then have "dropWhile (\<lambda>c. c = ch) (rev s) = rev s"
    using Cons by (cases "rev s") auto
  with 1 show ?thesis by (simp add: py_strip_def)
qed

lemma lower_char_ascii:
  "c < 128 \<Longrightarrow> d \<in> set (lower_char db c) \<Longrightarrow> lower_fixed db d"
  by (auto simp: lower_char_def lower_fixed_def split: if_splits)

lemma py_lower_settled:
  assumes "lower_settles db" and "d \<in> set (py_lower db s)"
  shows "lower_fixed db d"
proof -
  from assms(2) obtain i where i: "i < length s" and d: "d \<in> set (lower_at db s i)"
    by (auto simp: py_lower_def)
  show ?thesis
  proof (cases "s ! i = 931")
    case True
    with d have "d = 962 \<or> d = 963" by (auto simp: lower_at_def split: if_splits)
    with assms(1) show ?thesis by (auto simp: lower_settles_def)
  next
    case False
    with d have dc: "d \<in> set (lower_char db (s ! i))" by (simp add: lower_at_def)
    show ?thesis
    proof (cases "s ! i < 128")
      case True
      from True dc show ?thesis by (rule lower_char_ascii)
    next
      case False
      with dc have "d \<in> set (ucd_lower db (s ! i))" by (simp add: lower_char_def)
      moreover from False have "128 \<le> s ! i" by simp
      ultimately show ?thesis
        using assms(1) \<open>s ! i \<noteq> 931\<close> unfolding lower_settles_def by blast
    qed
  qed
qed

lemma py_lower_fixed:
  assumes "\<forall>c \<in> set s. lower_fixed db c"
  shows "py_lower db s = s"
proof -
  have "lower_at db s i = [s ! i]" if "i < length s" for i
    using assms that by (auto simp: lower_at_def lower_fixed_def)
  then have "map (lower_at db s) [0..<length s] = map (\<lambda>i. [s ! i]) [0..<length s]"
    by simp
  then have "py_lower db s = concat (map (\<lambda>i. [s ! i]) [0..<length s])"
    by (simp only: py_lower_def)
  also have "\<dots> = map (\<lambda>i. s ! i) [0..<length s]"
    by (rule concat_map_singleton)
  also have "\<dots> = s" by (rule map_nth)
  finally show ?thesis .
qed

lemma hyphen_fixed: "lower_fixed db 45"
  by (simp add: lower_fixed_def lower_char_def)

lemma slugify_fixed:
  assumes low: "\<forall>c \<in> set t. lower_fixed db c"
      and keep: "\<forall>c \<in> set t. is_word db c \<or> c = 45"
      and dbl: "\<not> double_hyphen t"
      and ends: "t = [] \<or> (hd t \<noteq> 45 \<and> last t \<noteq> 45)"
  shows "slugify db t = t"
proof -
  have 1: "py_lower db t = t" using low by (rule py_lower_fixed)
  have 2: "re_sub_runs (\<lambda>c. \<not> (is_word db c \<or> c = 45)) t = t"
    using keep by (intro re_sub_runs_id) simp
  have 3: "re_sub_runs (\<lambda>c. c = 45) t = t" using dbl by (rule no_double_fixed)
  have 4: "py_strip 45 t = t" using ends by (rule py_strip_fixed)
  show ?thesis unfolding slugify_def 1 2 3 4 ..
qed

lemma slugify_shape:
  "(\<forall>c \<in> set (slugify db s). (c \<in> set (py_lower db s) \<or> c = 45) \<and> (is_word db c \<or> c = 45))
   \<and> \<not> double_hyphen (slugify db s)
   \<and> (slugify db s = [] \<or> (hd (slugify db s) \<noteq> 45 \<and> last (slugify db s) \<noteq> 45))"
proof -
  define L where "L = py_lower db s"
  define B where "B = re_sub_runs (\<lambda>c. \<not> (is_word db c \<or> c = 45)) L"
  define C where "C = re_sub_runs (\<lambda>c. c = 45) B"
  have t: "slugify db s = py_strip 45 C" by (simp add: slugify_def C_def B_def L_def)
  have B: "set B \<subseteq> {c \<in> set L. is_word db c \<or> c = 45} \<union> {45}"
    unfolding B_def using re_sub_runs_set [of "\<lambda>c. \<not> (is_word db c \<or> c = 45)" L] by simp
  have C: "set C \<subseteq> set B \<union> {45}"
    unfolding C_def using re_sub_runs_set [of "\<lambda>c. c = 45" B] by blast
  have T: "set (py_strip 45 C) \<subseteq> set C" by (rule py_strip_set)
  have a: "\<forall>c \<in> set (py_strip 45 C). (c \<in> set L \<or> c = 45) \<and> (is_word db c \<or> c = 45)"
    using B C T by blast
  obtain p q where "C = p @ py_strip 45 C @ q" using py_strip_part by blast
  moreover have "\<not> double_hyphen C" unfolding C_def by (rule collapse_no_double)
  ultimately have b: "\<not> double_hyphen (py_strip 45 C)"
    using no_double_part [of p "py_strip 45 C" q] by simp
  have c: "py_strip 45 C = [] \<or> (hd (py_strip 45 C) \<noteq> 45 \<and> last (py_strip 45 C) \<noteq> 45)"
    by (rule py_strip_ends)
  from a b c show ?thesis unfolding t L_def by blast
qed

lemma latin1_settles: "lower_settles latin1_ucd"
proof -
  have "lower_fixed latin1_ucd d"
    if "128 \<le> c" "c \<noteq> 931" "d \<in> set (ucd_lower latin1_ucd c)" for c d
    using that by (auto simp: latin1_ucd_def lower_fixed_def lower_char_def split: if_splits)
  moreover have "lower_fixed latin1_ucd 962" "lower_fixed latin1_ucd 963"
    by (simp_all add: latin1_ucd_def lower_fixed_def lower_char_def)
  ultimately show ?thesis unfolding lower_settles_def by blast
qed

text \<open>
  C8, evaluated where the code leaves the claim: a province name with a non-ASCII
  letter, \<open>Laayoune\<close> written with a circumflex (code point 226) on its second \<open>a\<close>. Python's tables say that 226 is
  alphanumeric and its own lower case; under these two facts the slug keeps it, so the
  slug is not ASCII-only.
\<close>

theorem slugify_keeps_non_ascii:
  assumes "ucd_alnum db 226" and "ucd_lower db 226 = [226]"
  shows "slugify db [76, 97, 226, 121, 111, 117, 110, 101]
           = [108, 97, 226, 121, 111, 117, 110, 101]
       \<and> 226 \<in> set (slugify db [76, 97, 226, 121, 111, 117, 110, 101])"
  using assms
  by (simp add: slugify_def py_strip_def py_lower_def lower_at_def lower_char_def
      is_word_def upt_rec)

theorem slugify_keeps_non_ascii_witness:
  "ucd_alnum latin1_ucd 226 \<and> ucd_lower latin1_ucd 226 = [226]
   \<and> slugify latin1_ucd [76, 97, 226, 121, 111, 117, 110, 101]
       = [108, 97, 226, 121, 111, 117, 110, 101]"
  using slugify_keeps_non_ascii [of latin1_ucd]
  by (simp add: latin1_ucd_def)

text \<open>
  C9. The slug function is idempotent: \<open>slugify (slugify s) = slugify s\<close> for every
  string \<open>s\<close>, whatever the Unicode tables say about alphanumerics, provided the
  lower-case mapping only produces code points that it leaves alone (as Python's
  does).
\<close>

theorem slugify_idempotent:
  assumes "lower_settles db"
  shows "slugify db (slugify db s) = slugify db s"
proof (rule slugify_fixed)
  show "\<forall>c \<in> set (slugify db s). lower_fixed db c"
    using slugify_shape [of db s] py_lower_settled [OF assms, of _ s] hyphen_fixed [of db]
    by blast
  show "\<forall>c \<in> set (slugify db s). is_word db c \<or> c = 45"
    using slugify_shape [of db s] by blast
  show "\<not> double_hyphen (slugify db s)"
    using slugify_shape [of db s] by blast
  show "slugify db s = [] \<or> (hd (slugify db s) \<noteq> 45 \<and> last (slugify db s) \<noteq> 45)"
    using slugify_shape [of db s] by blast
qed

theorem slugify_idempotent_witness:
  "lower_settles latin1_ucd
   \<and> slugify latin1_ucd (u ''  Guelmim - Oued  Noun!! '') = u ''guelmim-oued-noun''
   \<and> slugify latin1_ucd (slugify latin1_ucd (u ''  Guelmim - Oued  Noun!! ''))
       = slugify latin1_ucd (u ''  Guelmim - Oued  Noun!! '')"
proof -
  have "slugify latin1_ucd (u ''  Guelmim - Oued  Noun!! '') = u ''guelmim-oued-noun''"
    by (simp add: slugify_def py_strip_def py_lower_def lower_at_def lower_char_def
        is_word_def u_def upt_rec latin1_ucd_def)
  then show ?thesis
    using latin1_settles slugify_idempotent [OF latin1_settles, of "u ''  Guelmim - Oued  Noun!! ''"]
    by simp
qed

section \<open>The year of a budget document\<close>

lemma all_less4: "(\<forall>j<4. P j) = (P 0 \<and> P (Suc 0) \<and> P 2 \<and> P 3)"
  by (auto simp: numeral_eq_Suc less_Suc_eq)

lemma d4_at_Suc: "d4_at db (x # s) (Suc i) = d4_at db s i"
  by (auto simp: d4_at_def)

lemma d4_at_0:
  "d4_at db (a # b # c # d # rest) 0
     = (is_digit db a \<and> is_digit db b \<and> is_digit db c \<and> is_digit db d)"
  by (simp add: d4_at_def all_less4)

lemma d4_at_short: "length s < 4 \<Longrightarrow> \<not> d4_at db s i"
  by (simp add: d4_at_def)

lemma search_d4_Some:
  "(search_d4 db s = Some g)
     = (\<exists>i. d4_at db s i \<and> (\<forall>j<i. \<not> d4_at db s j) \<and> g = take 4 (drop i s))"
proof (induction db s rule: search_d4.induct)
  case (1 db a b c d rest)
  let ?s = "a # b # c # d # rest"
  show ?case
  proof (cases "d4_at db ?s 0")
    case True
    then have "search_d4 db ?s = Some [a, b, c, d]" by (simp add: d4_at_0)
    moreover have "(\<exists>i. d4_at db ?s i \<and> (\<forall>j<i. \<not> d4_at db ?s j) \<and> g = take 4 (drop i ?s))
        = (g = [a, b, c, d])"
    proof
      assume "\<exists>i. d4_at db ?s i \<and> (\<forall>j<i. \<not> d4_at db ?s j) \<and> g = take 4 (drop i ?s)"
      then obtain i where i: "\<forall>j<i. \<not> d4_at db ?s j" "g = take 4 (drop i ?s)" by blast
      with True have "i = 0" by (cases i) auto
      with i show "g = [a, b, c, d]" by simp
    next
      assume "g = [a, b, c, d]"
      with True show "\<exists>i. d4_at db ?s i \<and> (\<forall>j<i. \<not> d4_at db ?s j) \<and> g = take 4 (drop i ?s)"
        by (intro exI [of _ 0]) simp
    qed
    ultimately show ?thesis by auto
  next
    case False
    then have nd: "\<not> (is_digit db a \<and> is_digit db b \<and> is_digit db c \<and> is_digit db d)"
      by (simp add: d4_at_0)
    then have "search_d4 db ?s = search_d4 db (b # c # d # rest)" by auto
    also have "(\<dots> = Some g)
        = (\<exists>i. d4_at db (b # c # d # rest) i \<and> (\<forall>j<i. \<not> d4_at db (b # c # d # rest) j)
               \<and> g = take 4 (drop i (b # c # d # rest)))"
      using 1 nd by blast
    also have "\<dots> = (\<exists>i. d4_at db ?s i \<and> (\<forall>j<i. \<not> d4_at db ?s j) \<and> g = take 4 (drop i ?s))"
    proof
      assume "\<exists>i. d4_at db (b # c # d # rest) i \<and> (\<forall>j<i. \<not> d4_at db (b # c # d # rest) j)
               \<and> g = take 4 (drop i (b # c # d # rest))"
      then obtain i where i: "d4_at db (b # c # d # rest) i"
        "\<forall>j<i. \<not> d4_at db (b # c # d # rest) j" "g = take 4 (drop i (b # c # d # rest))"
        by blast
      have "\<forall>j<Suc i. \<not> d4_at db ?s j"
      proof (intro allI impI)
        fix j assume "j < Suc i"
        then show "\<not> d4_at db ?s j"
          using False i(2) by (cases j) (simp_all add: d4_at_Suc)
      qed
      with i(1,3) show "\<exists>i. d4_at db ?s i \<and> (\<forall>j<i. \<not> d4_at db ?s j) \<and> g = take 4 (drop i ?s)"
        by (intro exI [of _ "Suc i"]) (simp add: d4_at_Suc)
    next
      assume "\<exists>i. d4_at db ?s i \<and> (\<forall>j<i. \<not> d4_at db ?s j) \<and> g = take 4 (drop i ?s)"
      then obtain i where i: "d4_at db ?s i" "\<forall>j<i. \<not> d4_at db ?s j" "g = take 4 (drop i ?s)"
        by blast
      with False obtain k where k: "i = Suc k" by (cases i) auto
      have "\<forall>j<k. \<not> d4_at db (b # c # d # rest) j"
      proof (intro allI impI)
        fix j assume "j < k"
        then have "\<not> d4_at db ?s (Suc j)" using i(2) k by simp
        then show "\<not> d4_at db (b # c # d # rest) j" by (simp add: d4_at_Suc)
      qed
      with i k show "\<exists>i. d4_at db (b # c # d # rest) i \<and> (\<forall>j<i. \<not> d4_at db (b # c # d # rest) j)
               \<and> g = take 4 (drop i (b # c # d # rest))"
        by (intro exI [of _ k]) (simp add: d4_at_Suc)
    qed
    finally show ?thesis .
  qed
qed (simp_all add: d4_at_def)

lemma search_d4_None: "(search_d4 db s = None) = (\<forall>i. \<not> d4_at db s i)"
proof -
  have "(search_d4 db s = None) = (\<nexists>g. search_d4 db s = Some g)" by auto
  also have "\<dots> = (\<forall>i. \<not> d4_at db s i)"
  proof
    assume a: "\<nexists>g. search_d4 db s = Some g"
    show "\<forall>i. \<not> d4_at db s i"
    proof (rule ccontr)
      assume "\<not> (\<forall>i. \<not> d4_at db s i)"
      then have ex: "\<exists>i. d4_at db s i" by simp
      define k where "k = (LEAST i. d4_at db s i)"
      have "d4_at db s k" unfolding k_def using ex by (rule LeastI_ex)
      moreover have "\<forall>j<k. \<not> d4_at db s j" unfolding k_def using not_less_Least by blast
      ultimately have "search_d4 db s = Some (take 4 (drop k s))"
        unfolding search_d4_Some by blast
      with a show False by blast
    qed
  next
    assume "\<forall>i. \<not> d4_at db s i"
    then show "\<nexists>g. search_d4 db s = Some g" unfolding search_d4_Some by blast
  qed
  finally show ?thesis .
qed


lemma budgets_loop_records:
  "budgets_loop d out links idx st = (Inr idx', st') \<Longrightarrow>
     \<exists>new. idx' = idx @ new
       \<and> list_all2 (\<lambda>a r.
            dict_get r (u ''source_url'') = Some (pdf_url_of a)
            \<and> dict_get r (u ''year'')
                = Some (case search_d4 (unicode d) (pdf_url_of a) of
                          Some g \<Rightarrow> g | None \<Rightarrow> u ''unknown'')) links new"
proof (induction links arbitrary: idx st)
  case Nil
  then show ?case by simp
next
  case (Cons a links)
  obtain res st1 where sr: "safe_request (http_get d) (pdf_url_of a) st = (res, st1)"
    by (cases "safe_request (http_get d) (pdf_url_of a) st")
  show ?case
  proof (cases res)
    case (Inl e)
    with Cons.prems sr show ?thesis by (simp add: Let_def)
  next
    case (Inr resp)
    define r where "r = [(u ''year'', case search_d4 (unicode d) (pdf_url_of a) of
                                        Some g \<Rightarrow> g | None \<Rightarrow> u ''unknown''),
        (u ''source_url'', pdf_url_of a),
        (u ''sha1'', sha1 (hexdigest d) (resp_content resp)),
        (u ''file'', path_str [u ''commune'', u ''budgets'',
                                sha1 (hexdigest d) (resp_content resp) @ u ''.pdf''])]"
    from Cons.prems sr Inr obtain st2 where
      "budgets_loop d out links (idx @ [r]) st2 = (Inr idx', st')"
      by (auto simp: Let_def r_def split: prod.splits)
    from Cons.IH [OF this] obtain new where new: "idx' = (idx @ [r]) @ new"
      and all: "list_all2 (\<lambda>a r.
            dict_get r (u ''source_url'') = Some (pdf_url_of a)
            \<and> dict_get r (u ''year'')
                = Some (case search_d4 (unicode d) (pdf_url_of a) of
                          Some g \<Rightarrow> g | None \<Rightarrow> u ''unknown'')) links new"
      by blast
    have r: "dict_get r (u ''source_url'') = Some (pdf_url_of a)
        \<and> dict_get r (u ''year'')
            = Some (case search_d4 (unicode d) (pdf_url_of a) of
                      Some g \<Rightarrow> g | None \<Rightarrow> u ''unknown'')"
      by (simp add: r_def dict_get_def u_def)
    from new have "idx' = idx @ (r # new)" by simp
    moreover from r all have "list_all2 (\<lambda>a r.
            dict_get r (u ''source_url'') = Some (pdf_url_of a)
            \<and> dict_get r (u ''year'')
                = Some (case search_d4 (unicode d) (pdf_url_of a) of
                          Some g \<Rightarrow> g | None \<Rightarrow> u ''unknown'')) (a # links) (r # new)"
      by simp
    ultimately show ?thesis by blast
  qed
qed

text \<open>
  C5. Every record of the budgets index carries under \<open>year\<close> the first four
  consecutive digits of the URL of its link (the four characters at the least index
  \<open>k\<close> where four digits stand), and the literal \<open>unknown\<close> when the URL has no
  four consecutive digits; the link \<open>/ar/budget-2019-final.pdf\<close> gives 2019.
\<close>

theorem budgets_year:
  assumes run: "budgets_loop d out links idx st = (Inr idx', st')"
  shows "\<exists>new. idx' = idx @ new \<and> length new = length links
     \<and> (\<forall>i<length links.
          dict_get (new ! i) (u ''source_url'') = Some (pdf_url_of (links ! i))
          \<and> ((\<forall>k. \<not> d4_at (unicode d) (pdf_url_of (links ! i)) k)
               \<longrightarrow> dict_get (new ! i) (u ''year'') = Some (u ''unknown''))
          \<and> (\<forall>k. d4_at (unicode d) (pdf_url_of (links ! i)) k
                  \<and> (\<forall>j<k. \<not> d4_at (unicode d) (pdf_url_of (links ! i)) j)
               \<longrightarrow> dict_get (new ! i) (u ''year'')
                     = Some (take 4 (drop k (pdf_url_of (links ! i))))))"
proof -
  from budgets_loop_records [OF run] obtain new where new: "idx' = idx @ new"
    and all: "list_all2 (\<lambda>a r.
            dict_get r (u ''source_url'') = Some (pdf_url_of a)
            \<and> dict_get r (u ''year'')
                = Some (case search_d4 (unicode d) (pdf_url_of a) of
                          Some g \<Rightarrow> g | None \<Rightarrow> u ''unknown'')) links new"
    by blast
  from all have len: "length new = length links" by (simp add: list_all2_lengthD)
  have "dict_get (new ! i) (u ''source_url'') = Some (pdf_url_of (links ! i))
          \<and> ((\<forall>k. \<not> d4_at (unicode d) (pdf_url_of (links ! i)) k)
               \<longrightarrow> dict_get (new ! i) (u ''year'') = Some (u ''unknown''))
          \<and> (\<forall>k. d4_at (unicode d) (pdf_url_of (links ! i)) k
                  \<and> (\<forall>j<k. \<not> d4_at (unicode d) (pdf_url_of (links ! i)) j)
               \<longrightarrow> dict_get (new ! i) (u ''year'')
                     = Some (take 4 (drop k (pdf_url_of (links ! i)))))"
    if i: "i < length links" for i
  proof -
    let ?url = "pdf_url_of (links ! i)"
    from all i have src: "dict_get (new ! i) (u ''source_url'') = Some ?url"
      and yr: "dict_get (new ! i) (u ''year'')
                = Some (case search_d4 (unicode d) ?url of Some g \<Rightarrow> g | None \<Rightarrow> u ''unknown'')"
      by (auto dest: list_all2_nthD)
    have none: "dict_get (new ! i) (u ''year'') = Some (u ''unknown'')"
      if "\<forall>k. \<not> d4_at (unicode d) ?url k"
    proof -
      from that have "search_d4 (unicode d) ?url = None" by (simp add: search_d4_None)
      with yr show ?thesis by simp
    qed
    have some: "dict_get (new ! i) (u ''year'') = Some (take 4 (drop k ?url))"
      if "d4_at (unicode d) ?url k" "\<forall>j<k. \<not> d4_at (unicode d) ?url j" for k
    proof -
      from that have "search_d4 (unicode d) ?url = Some (take 4 (drop k ?url))"
        unfolding search_d4_Some by blast
      with yr show ?thesis by simp
    qed
    from src none some show ?thesis by blast
  qed
  with new len show ?thesis by blast
qed


theorem budgets_year_witness:
  "map (\<lambda>r. dict_get r (u ''year''))
     (case fst (budgets_loop (test_deps [] [] []) [u ''data'']
                  [\<lparr>href = u ''/ar/budget-2019-final.pdf'', anchor_text = u ''Budget''\<rparr>,
                   \<lparr>href = u ''http://x/budget.pdf'', anchor_text = u ''Other''\<rparr>]
                  []
                  (init_state [Inr \<lparr>resp_text = [], resp_content = [1]\<rparr>,
                               Inr \<lparr>resp_text = [], resp_content = [2]\<rparr>])) of
        Inr idx \<Rightarrow> idx | Inl e \<Rightarrow> [])
   = [Some (u ''2019''), Some (u ''unknown'')]"
proof -
  let ?run = "budgets_loop (test_deps [] [] []) [u ''data'']
                  [\<lparr>href = u ''/ar/budget-2019-final.pdf'', anchor_text = u ''Budget''\<rparr>,
                   \<lparr>href = u ''http://x/budget.pdf'', anchor_text = u ''Other''\<rparr>]
                  []
                  (init_state [Inr \<lparr>resp_text = [], resp_content = [1]\<rparr>,
                               Inr \<lparr>resp_text = [], resp_content = [2]\<rparr>])"
  have r: "map (\<lambda>r. dict_get r (u ''year'')) (case fst ?run of Inr idx \<Rightarrow> idx | Inl e \<Rightarrow> [])
             = [Some (u ''2019''), Some (u ''unknown'')]
           \<and> \<not> isl (fst ?run)"
    by (simp add: test_deps_def scripted_def safe_request_def range3 save_binary_def
        sha1_def pdf_url_of_def startswith_def commune_BASE_def u_def is_digit_def
        latin1_ucd_def init_state_def dict_get_def Let_def)
  then obtain idx where "?run = (Inr idx, snd ?run)"
    by (cases "fst ?run") (auto simp: prod_eq_iff)
  from budgets_year [OF this] r show ?thesis by simp
qed

section \<open>The content store\<close>

lemma retry_loop_files: "files (snd (retry_loop get url rs st)) = files st"
proof (induction rs arbitrary: st)
  case Nil
  show ?case by simp
next
  case (Cons r rs)
  show ?case
  proof (cases "get url (world st)")
    case (Pair res w')
    then show ?thesis using Cons [of "st\<lparr>world := w', requests := requests st @ [url],
                warnings := warnings st @ [(projl res, r + 1)],
                sleeps := sleeps st @ [3 * (r + 1)]\<rparr>"]
      by (cases res) simp_all
  qed
qed

lemma safe_request_files: "safe_request get url st = (res, st') \<Longrightarrow> files st' = files st"
  using retry_loop_files [of get url "[0..<3]" st]
  by (auto simp: safe_request_def split: prod.splits option.splits)

text \<open>
  C4. The digest is a function of the bytes (equal payloads have equal digests), and
  storing one payload twice under the name made of its digest gives the same path both
  times and leaves the store after the second write exactly as it was after the first:
  one file, holding the payload.
\<close>

theorem store_same_payload_twice:
  "(b = b' \<longrightarrow> sha1 h b = sha1 h b')
   \<and> fst (save_binary out b (dir @ [sha1 h b @ u ''.pdf'']) st)
       = fst (save_binary out b (dir @ [sha1 h b @ u ''.pdf''])
                (snd (save_binary out b (dir @ [sha1 h b @ u ''.pdf'']) st)))
   \<and> snd (save_binary out b (dir @ [sha1 h b @ u ''.pdf''])
            (snd (save_binary out b (dir @ [sha1 h b @ u ''.pdf'']) st)))
       = snd (save_binary out b (dir @ [sha1 h b @ u ''.pdf'']) st)
   \<and> files (snd (save_binary out b (dir @ [sha1 h b @ u ''.pdf'']) st))
        (out @ dir @ [sha1 h b @ u ''.pdf'']) = Some b"
  by (simp add: save_binary_def Let_def)

theorem store_same_payload_twice_witness:
  "sha1 hex_dump [10, 255] = u ''0aff''
   \<and> fst (save_binary [u ''data''] [10, 255]
            ([u ''commune'', u ''minutes''] @ [sha1 hex_dump [10, 255] @ u ''.pdf''])
            (init_state ()))
       = [u ''data'', u ''commune'', u ''minutes'', u ''0aff.pdf'']
   \<and> snd (save_binary [u ''data''] [10, 255]
            ([u ''commune'', u ''minutes''] @ [sha1 hex_dump [10, 255] @ u ''.pdf''])
            (snd (save_binary [u ''data''] [10, 255]
              ([u ''commune'', u ''minutes''] @ [sha1 hex_dump [10, 255] @ u ''.pdf''])
              (init_state ()))))
       = snd (save_binary [u ''data''] [10, 255]
              ([u ''commune'', u ''minutes''] @ [sha1 hex_dump [10, 255] @ u ''.pdf''])
              (init_state ()))"
  using store_same_payload_twice [of "[10, 255]" "[10, 255]" hex_dump "[u ''data'']"
      "[u ''commune'', u ''minutes'']" "init_state ()"]
  by (simp add: save_binary_def sha1_def hex_dump_def hex_digit_def u_def Let_def)

section \<open>A document run that fails part-way\<close>

lemma retry_loop_files_upd:
  "retry_loop get url rs (st\<lparr>files := f\<rparr>)
     = (fst (retry_loop get url rs st), (snd (retry_loop get url rs st))\<lparr>files := f\<rparr>)"
proof (induction rs arbitrary: st)
  case Nil
  show ?case by simp
next
  case (Cons r rs)
  obtain res w' where g: "get url (world st) = (res, w')"
    by (cases "get url (world st)")
  show ?case
  proof (cases res)
    case (Inl err)
    define st1 where "st1 = st\<lparr>world := w', requests := requests st @ [url],
                warnings := warnings st @ [(err, r + 1)],
                sleeps := sleeps st @ [3 * (r + 1)]\<rparr>"
    have swap: "(st\<lparr>files := f\<rparr>)\<lparr>world := w', requests := requests (st\<lparr>files := f\<rparr>) @ [url],
                warnings := warnings (st\<lparr>files := f\<rparr>) @ [(err, r + 1)],
                sleeps := sleeps (st\<lparr>files := f\<rparr>) @ [3 * (r + 1)]\<rparr> = st1\<lparr>files := f\<rparr>"
      unfolding st1_def by (cases st) simp
    have "retry_loop get url (r # rs) (st\<lparr>files := f\<rparr>) = retry_loop get url rs (st1\<lparr>files := f\<rparr>)"
      using g Inl swap by simp
    moreover have "retry_loop get url (r # rs) st = retry_loop get url rs st1"
      using g Inl by (simp add: st1_def)
    ultimately show ?thesis using Cons [of st1] by simp
  next
    case (Inr resp)
    have "(st\<lparr>files := f\<rparr>)\<lparr>world := w', requests := requests (st\<lparr>files := f\<rparr>) @ [url]\<rparr>
        = (st\<lparr>world := w', requests := requests st @ [url]\<rparr>)\<lparr>files := f\<rparr>"
      by (cases st) simp
    with g Inr show ?thesis by simp
  qed
qed

lemma safe_request_files_upd:
  "safe_request get url st = (res, st') \<Longrightarrow>
     safe_request get url (st\<lparr>files := f\<rparr>) = (res, st'\<lparr>files := f\<rparr>)"
  unfolding safe_request_def retry_loop_files_upd
  by (cases "retry_loop get url [0..<3] st") (auto split: option.splits)

lemma fetch_all_files_upd:
  "fetch_all get urls st = (bodies, err, stF) \<Longrightarrow>
     fetch_all get urls (st\<lparr>files := f\<rparr>) = (bodies, err, stF\<lparr>files := f\<rparr>)"
proof (induction urls arbitrary: st bodies err stF)
  case Nil
  then show ?case by simp
next
  case (Cons url urls)
  obtain res st1 where sr: "safe_request get url st = (res, st1)"
    by (cases "safe_request get url st")
  note sr' = safe_request_files_upd [OF sr, of f]
  show ?case
  proof (cases res)
    case (Inl e)
    with Cons.prems sr sr' show ?thesis by simp
  next
    case (Inr resp)
    obtain bs er s2 where fa: "fetch_all get urls st1 = (bs, er, s2)"
      by (cases "fetch_all get urls st1") auto
    from Cons.IH [OF fa] Cons.prems sr sr' Inr fa show ?thesis by simp
  qed
qed

lemma fetch_all_length:
  "fetch_all get urls st = (bodies, err, stF) \<Longrightarrow>
     (case err of None \<Rightarrow> length bodies = length urls | Some e \<Rightarrow> length bodies < length urls)"
proof (induction urls arbitrary: st bodies err stF)
  case Nil
  then show ?case by simp
next
  case (Cons url urls)
  obtain res st1 where sr: "safe_request get url st = (res, st1)"
    by (cases "safe_request get url st")
  show ?case
  proof (cases res)
    case (Inl e)
    with Cons.prems sr show ?thesis by auto
  next
    case (Inr resp)
    obtain bs er s2 where fa: "fetch_all get urls st1 = (bs, er, s2)"
      by (cases "fetch_all get urls st1") auto
    from Cons.IH [OF fa] Cons.prems sr Inr fa show ?thesis
      by (auto split: option.splits)
  qed
qed

lemma stored_Cons:
  "stored h dir fs (b # bs) = stored h dir (fs(dir @ [sha1 h b @ u ''.pdf''] \<mapsto> b)) bs"
  by (simp add: stored_def)

lemma stored_snoc:
  "stored h dir fs (bs @ [b]) = (stored h dir fs bs)(dir @ [sha1 h b @ u ''.pdf''] \<mapsto> b)"
  by (simp add: stored_def)

lemma download_loop_trace:
  "fetch_all (http_get d) (map url links) st = (bodies, err, stF) \<Longrightarrow>
     download_loop url dir mk d out links idx st
       = (case err of
            None \<Rightarrow> Inr (idx @ map2 (\<lambda>a b. mk a (sha1 (hexdigest d) b)) links bodies)
          | Some e \<Rightarrow> Inl e,
          stF\<lparr>files := stored (hexdigest d) (out @ dir) (files st) bodies\<rparr>)"
proof (induction links arbitrary: idx st bodies err stF)
  case Nil
  then show ?case by (auto simp: stored_def)
next
  case (Cons a links)
  obtain res st1 where sr: "safe_request (http_get d) (url a) st = (res, st1)"
    by (cases "safe_request (http_get d) (url a) st")
  show ?case
  proof (cases res)
    case (Inl e)
    with Cons.prems sr safe_request_files [OF sr, symmetric] show ?thesis
      by (auto simp: stored_def)
  next
    case (Inr resp)
    define b where "b = resp_content resp"
    define f1 where "f1 = (files st1)(out @ dir @ [sha1 (hexdigest d) b @ u ''.pdf''] \<mapsto> b)"
    obtain bs er s2 where fa: "fetch_all (http_get d) (map url links) st1 = (bs, er, s2)"
      by (cases "fetch_all (http_get d) (map url links) st1") auto
    from Cons.prems sr Inr fa have eq: "bodies = b # bs" "err = er" "stF = s2"
      by (simp_all add: b_def)
    have "download_loop url dir mk d out (a # links) idx st
        = download_loop url dir mk d out links (idx @ [mk a (sha1 (hexdigest d) b)])
            (st1\<lparr>files := f1\<rparr>)"
      using sr Inr by (simp add: b_def f1_def)
    also have "\<dots> = (case er of
            None \<Rightarrow> Inr ((idx @ [mk a (sha1 (hexdigest d) b)])
                         @ map2 (\<lambda>a b. mk a (sha1 (hexdigest d) b)) links bs)
          | Some e \<Rightarrow> Inl e,
          s2\<lparr>files := stored (hexdigest d) (out @ dir) f1 bs\<rparr>)"
      using Cons.IH [OF fetch_all_files_upd [OF fa, of f1]] by simp
    finally show ?thesis
      using eq safe_request_files [OF sr]
      by (simp add: stored_Cons f1_def split: option.splits)
  qed
qed


lemma minutes_loop_shape:
  "minutes_loop d out links idx st
     = download_loop pdf_url_of [u ''commune'', u ''minutes'']
         (\<lambda>a dg. [(u ''title'', anchor_text a), (u ''source_url'', pdf_url_of a), (u ''sha1'', dg),
                   (u ''file'', path_str [u ''commune'', u ''minutes'', dg @ u ''.pdf''])])
         d out links idx st"
proof (induction links arbitrary: idx st)
  case Nil
  show ?case by simp
next
  case (Cons a links)
  show ?case
    by (cases "safe_request (http_get d) (pdf_url_of a) st")
       (auto simp: Let_def save_binary_def Cons split: sum.splits)
qed

lemma budgets_loop_shape:
  "budgets_loop d out links idx st
     = download_loop pdf_url_of [u ''commune'', u ''budgets'']
         (\<lambda>a dg. [(u ''year'', case search_d4 (unicode d) (pdf_url_of a) of
                                  Some g \<Rightarrow> g | None \<Rightarrow> u ''unknown''),
                   (u ''source_url'', pdf_url_of a), (u ''sha1'', dg),
                   (u ''file'', path_str [u ''commune'', u ''budgets'', dg @ u ''.pdf''])])
         d out links idx st"
proof (induction links arbitrary: idx st)
  case Nil
  show ?case by simp
next
  case (Cons a links)
  show ?case
    by (cases "safe_request (http_get d) (pdf_url_of a) st")
       (auto simp: Let_def save_binary_def Cons split: sum.splits)
qed

lemma region_sessions_loop_shape:
  "region_sessions_loop d out links idx st
     = download_loop href [u ''region'', u ''sessions'']
         (\<lambda>a dg. [(u ''title'', anchor_text a), (u ''source_url'', href a), (u ''sha1'', dg),
                   (u ''file'', path_str [u ''region'', u ''sessions'', dg @ u ''.pdf''])])
         d out links idx st"
proof (induction links arbitrary: idx st)
  case Nil
  show ?case by simp
next
  case (Cons a links)
  show ?case
    by (cases "safe_request (http_get d) (href a) st")
       (auto simp: Let_def save_binary_def Cons split: sum.splits)
qed

lemma region_budgets_loop_shape:
  "region_budgets_loop d out links idx st
     = download_loop href [u ''region'', u ''budgets'']
         (\<lambda>a dg. [(u ''source_url'', href a), (u ''sha1'', dg),
                   (u ''file'', path_str [u ''region'', u ''budgets'', dg @ u ''.pdf''])])
         d out links idx st"
proof (induction links arbitrary: idx st)
  case Nil
  show ?case by simp
next
  case (Cons a links)
  show ?case
    by (cases "safe_request (http_get d) (href a) st")
       (auto simp: Let_def save_binary_def Cons split: sum.splits)
qed

lemma doc_loop_shape:
  "\<exists>mk. \<forall>links idx st. doc_loop k d out links idx st
            = download_loop (doc_url k) (doc_dir k) mk d out links idx st"
proof (cases k)
  case CommuneMinutes
  have "doc_url k = pdf_url_of" using CommuneMinutes by (auto simp: fun_eq_iff)
  then show ?thesis using CommuneMinutes minutes_loop_shape [of d out] by auto
next
  case CommuneBudgets
  have "doc_url k = pdf_url_of" using CommuneBudgets by (auto simp: fun_eq_iff)
  then show ?thesis using CommuneBudgets budgets_loop_shape [of d out] by auto
next
  case RegionSessions
  have "doc_url k = href" using RegionSessions by (auto simp: fun_eq_iff)
  then show ?thesis using RegionSessions region_sessions_loop_shape [of d out] by auto
next
  case RegionBudgets
  have "doc_url k = href" using RegionBudgets by (auto simp: fun_eq_iff)
  then show ?thesis using RegionBudgets region_budgets_loop_shape [of d out] by auto
qed

lemma scrape_docs_unfold:
  "scrape_docs k d out st =
     (case safe_request (http_get d) (listing_url k) st of
        (Inl e, st1) \<Rightarrow> (Inl e, st1)
      | (Inr resp, st1) \<Rightarrow>
          (case doc_loop k d out (doc_links k d (resp_text resp)) [] st1 of
             (Inl e, st2) \<Rightarrow> (Inl e, st2)
           | (Inr idx, st2) \<Rightarrow>
               (case save_json out idx (index_path k) st2 of
                  (Inl e, st3) \<Rightarrow> (Inl e, st3)
                | (Inr p, st3) \<Rightarrow> (Inr (), st3))))"
  by (cases k)
     (auto simp: scrape_minutes_def scrape_budgets_def region_scrape_sessions_def
        region_scrape_budgets_def split: prod.splits sum.splits)

lemma stored_other:
  "\<forall>b \<in> set bodies. p \<noteq> dir @ [sha1 h b @ u ''.pdf''] \<Longrightarrow> stored h dir fs bodies p = fs p"
  by (induction bodies arbitrary: fs) (simp_all add: stored_def)

lemma stored_present:
  "b \<in> set bodies \<Longrightarrow>
     \<exists>b' \<in> set bodies. stored h dir fs bodies (dir @ [sha1 h b @ u ''.pdf'']) = Some b'
        \<and> sha1 h b' = sha1 h b"
proof (induction bodies rule: rev_induct)
  case Nil
  then show ?case by simp
next
  case (snoc x bodies)
  show ?case
  proof (cases "sha1 h x = sha1 h b")
    case True
    then show ?thesis by (auto simp: stored_snoc)
  next
    case False
    with snoc.prems have "b \<in> set bodies" by auto
    from snoc.IH [OF this] False show ?thesis by (auto simp: stored_snoc)
  qed
qed

lemma stored_exact:
  "b \<in> set bodies \<Longrightarrow> \<forall>b' \<in> set bodies. sha1 h b' = sha1 h b \<longrightarrow> b' = b \<Longrightarrow>
     stored h dir fs bodies (dir @ [sha1 h b @ u ''.pdf'']) = Some b"
  using stored_present [of b bodies h dir fs] by auto


lemma index_path_apart: "index_path k \<noteq> doc_dir k @ [x]"
  by (cases k) simp_all

text \<open>
  C7. For each of the four document-downloading runs: when the loop over the links
  ends with an error (inside the loops only the fetch of a document can raise, after
  three failed attempts), the run ends with that error and writes no index: the path
  of the index holds what it held before the run. The binaries of the documents that
  were processed before the failure are on disk: with \<open>bodies\<close> the bodies that
  the network returned for the links before the failing one, the store is the store
  before the run with each body written, in turn, under the name of its digest; so
  the file named by the digest of a body holds a body with that digest, and that very
  body unless a later one has the same digest.
\<close>

theorem failing_document_run_keeps_binaries_without_index:
  assumes listing: "safe_request (http_get d) (listing_url k) st = (Inr page, st1)"
      and failed: "doc_loop k d out (doc_links k d (resp_text page)) [] st1 = (Inl e, st2)"
  shows "scrape_docs k d out st = (Inl e, st2)
       \<and> (\<exists>bodies stF.
             fetch_all (http_get d) (map (doc_url k) (doc_links k d (resp_text page))) st1
               = (bodies, Some e, stF)
             \<and> length bodies < length (doc_links k d (resp_text page))
             \<and> files st2 = stored (hexdigest d) (out @ doc_dir k) (files st) bodies
             \<and> (\<forall>b \<in> set bodies. \<exists>b' \<in> set bodies.
                   files st2 (out @ doc_dir k @ [sha1 (hexdigest d) b @ u ''.pdf'']) = Some b'
                   \<and> sha1 (hexdigest d) b' = sha1 (hexdigest d) b)
             \<and> (\<forall>b \<in> set bodies.
                   (\<forall>b' \<in> set bodies. sha1 (hexdigest d) b' = sha1 (hexdigest d) b \<longrightarrow> b' = b)
                   \<longrightarrow> files st2 (out @ doc_dir k @ [sha1 (hexdigest d) b @ u ''.pdf''])
                         = Some b))
       \<and> files st2 (out @ index_path k) = files st (out @ index_path k)"
proof -
  let ?links = "doc_links k d (resp_text page)"
  let ?h = "hexdigest d"
  have run: "scrape_docs k d out st = (Inl e, st2)"
    using listing failed by (simp add: scrape_docs_unfold)
  have f1: "files st1 = files st" using listing by (rule safe_request_files)
  obtain mk where mk: "doc_loop k d out ?links [] st1
      = download_loop (doc_url k) (doc_dir k) mk d out ?links [] st1"
    using doc_loop_shape [of k d out] by blast
  obtain bodies err stF where fa:
    "fetch_all (http_get d) (map (doc_url k) ?links) st1 = (bodies, err, stF)"
    by (cases "fetch_all (http_get d) (map (doc_url k) ?links) st1") auto
  from download_loop_trace [OF fa, of "doc_dir k" mk out "[]"] mk failed
  have res: "(case err of
            None \<Rightarrow> Inr ([] @ map2 (\<lambda>a b. mk a (sha1 ?h b)) ?links bodies)
          | Some e \<Rightarrow> Inl e) = Inl e"
    and st2: "st2 = stF\<lparr>files := stored ?h (out @ doc_dir k) (files st1) bodies\<rparr>"
    by simp_all
  from res have err: "err = Some e" by (cases err) simp_all
  from st2 f1 have files: "files st2 = stored ?h (out @ doc_dir k) (files st) bodies"
    by simp
  from fetch_all_length [OF fa] err have len: "length bodies < length ?links" by simp
  have present: "\<exists>b' \<in> set bodies.
         files st2 (out @ doc_dir k @ [sha1 ?h b @ u ''.pdf'']) = Some b'
         \<and> sha1 ?h b' = sha1 ?h b" if "b \<in> set bodies" for b
    using stored_present [OF that, of ?h "out @ doc_dir k" "files st"] files by simp
  have exact: "files st2 (out @ doc_dir k @ [sha1 ?h b @ u ''.pdf'']) = Some b"
    if "b \<in> set bodies" "\<forall>b' \<in> set bodies. sha1 ?h b' = sha1 ?h b \<longrightarrow> b' = b" for b
    using stored_exact [OF that, of "out @ doc_dir k" "files st"] files by simp
  have idx: "files st2 (out @ index_path k) = files st (out @ index_path k)"
    unfolding files by (rule stored_other) (simp add: index_path_apart)
  from fa err len files present exact
  have "\<exists>bodies stF.
             fetch_all (http_get d) (map (doc_url k) ?links) st1 = (bodies, Some e, stF)
             \<and> length bodies < length ?links
             \<and> files st2 = stored ?h (out @ doc_dir k) (files st) bodies
             \<and> (\<forall>b \<in> set bodies. \<exists>b' \<in> set bodies.
                   files st2 (out @ doc_dir k @ [sha1 ?h b @ u ''.pdf'']) = Some b'
                   \<and> sha1 ?h b' = sha1 ?h b)
             \<and> (\<forall>b \<in> set bodies.
                   (\<forall>b' \<in> set bodies. sha1 ?h b' = sha1 ?h b \<longrightarrow> b' = b)
                   \<longrightarrow> files st2 (out @ doc_dir k @ [sha1 ?h b @ u ''.pdf'']) = Some b)"
    by blast
  with run idx show ?thesis by blast
qed

theorem failing_document_run_keeps_binaries_without_index_witness:
  "fst (scrape_docs RegionSessions
         (test_deps [\<lparr>href = u ''http://r/a.pdf'', anchor_text = u ''A''\<rparr>,
                     \<lparr>href = u ''http://r/b.pdf'', anchor_text = u ''B''\<rparr>] [] [])
         [u ''data'']
         (init_state [Inr \<lparr>resp_text = u ''page'', resp_content = []\<rparr>,
                      Inr \<lparr>resp_text = [], resp_content = [7]\<rparr>]))
     = Inl (RuntimeError (u ''Failed to fetch http://r/b.pdf after 3 attempts''))
   \<and> files (snd (scrape_docs RegionSessions
         (test_deps [\<lparr>href = u ''http://r/a.pdf'', anchor_text = u ''A''\<rparr>,
                     \<lparr>href = u ''http://r/b.pdf'', anchor_text = u ''B''\<rparr>] [] [])
         [u ''data'']
         (init_state [Inr \<lparr>resp_text = u ''page'', resp_content = []\<rparr>,
                      Inr \<lparr>resp_text = [], resp_content = [7]\<rparr>])))
       = [[u ''data'', u ''region'', u ''sessions'', u ''07.pdf''] \<mapsto> [7]]"
proof -
  define a1 where "a1 = \<lparr>href = u ''http://r/a.pdf'', anchor_text = u ''A''\<rparr>"
  define a2 where "a2 = \<lparr>href = u ''http://r/b.pdf'', anchor_text = u ''B''\<rparr>"
  define D where "D = test_deps [a1, a2] [] []"
  define st0 :: "(pystr + response) list state"
    where "st0 = init_state [Inr \<lparr>resp_text = u ''page'', resp_content = []\<rparr>,
                      Inr \<lparr>resp_text = [], resp_content = [7]\<rparr>]"
  note ev = D_def a1_def a2_def st0_def test_deps_def scripted_def safe_request_def range3
    save_binary_def sha1_def init_state_def Let_def hex_dump_def hex_digit_def
  let ?r1 = "safe_request (http_get D) (listing_url RegionSessions) st0"
  have l: "?r1 = (Inr (projr (fst ?r1)), snd ?r1)" by (simp add: ev)
  let ?r2 = "doc_loop RegionSessions D [u ''data'']
               (doc_links RegionSessions D (resp_text (projr (fst ?r1)))) [] (snd ?r1)"
  have f: "?r2 = (Inl (projl (fst ?r2)), snd ?r2)" by (simp add: ev)
  have e: "projl (fst ?r2)
      = RuntimeError (u ''Failed to fetch http://r/b.pdf after 3 attempts'')"
    by (simp add: ev u_def)
  have f2: "files (snd ?r2) = [[u ''data'', u ''region'', u ''sessions'', u ''07.pdf''] \<mapsto> [7]]"
    by (simp add: ev u_def)
  from failing_document_run_keeps_binaries_without_index [OF l f]
  have "scrape_docs RegionSessions D [u ''data''] st0 = (Inl (projl (fst ?r2)), snd ?r2)"
    by blast
  with e f2 have "fst (scrape_docs RegionSessions D [u ''data''] st0)
       = Inl (RuntimeError (u ''Failed to fetch http://r/b.pdf after 3 attempts''))
     \<and> files (snd (scrape_docs RegionSessions D [u ''data''] st0))
         = [[u ''data'', u ''region'', u ''sessions'', u ''07.pdf''] \<mapsto> [7]]"
    by simp
  then show ?thesis
    unfolding D_def a1_def a2_def st0_def .
qed

section \<open>The records of the election results\<close>

lemma dict_set_keys: "fst ` set (dict_set d k v) = insert k (fst ` set d)"
  by (induction d k v rule: dict_set.induct) (simp_all add: insert_commute)

lemma dict_set_distinct: "distinct (map fst d) \<Longrightarrow> distinct (map fst (dict_set d k v))"
proof (induction d)
  case Nil
  show ?case by simp
next
  case (Cons p d)
  obtain k' v' where p: "p = (k', v')" by (cases p)
  show ?case
  proof (cases "k' = k")
    case True
    with Cons.prems p show ?thesis by simp
  next
    case False
    with Cons p show ?thesis by (auto simp: dict_set_keys)
  qed
qed

lemma dict_set_get: "dict_get (dict_set d k v) x = (if x = k then Some v else dict_get d x)"
  by (induction d k v rule: dict_set.induct) (auto simp: dict_get_def)

lemma foldl_dict_keys:
  "fst ` set (foldl (\<lambda>d (k, v). dict_set d k v) d ps) = fst ` set d \<union> fst ` set ps"
  by (induction ps arbitrary: d) (simp_all add: dict_set_keys split_beta)

lemma foldl_dict_distinct:
  "distinct (map fst d) \<Longrightarrow> distinct (map fst (foldl (\<lambda>d (k, v). dict_set d k v) d ps))"
  by (induction ps arbitrary: d) (simp_all add: dict_set_distinct split_beta)

lemma foldl_dict_get_other:
  "x \<notin> fst ` set ps \<Longrightarrow>
     dict_get (foldl (\<lambda>d (k, v). dict_set d k v) d ps) x = dict_get d x"
  by (induction ps arbitrary: d) (simp_all add: dict_set_get split_beta)

lemma foldl_dict_get_zip:
  "length xs = length ys \<Longrightarrow> i < length xs \<Longrightarrow> xs ! i \<notin> set (drop (Suc i) xs) \<Longrightarrow>
     dict_get (foldl (\<lambda>d (k, v). dict_set d k v) d (zip xs ys)) (xs ! i) = Some (ys ! i)"
proof (induction xs arbitrary: ys i d)
  case Nil
  then show ?case by simp
next
  case (Cons x xs)
  then obtain y ys' where ys: "ys = y # ys'" by (cases ys) auto
  show ?case
  proof (cases i)
    case 0
    with Cons.prems ys have "x \<notin> set xs" by simp
    then have "x \<notin> fst ` set (zip xs ys')" by (auto dest: set_zip_leftD)
    then show ?thesis using 0 ys by (simp add: foldl_dict_get_other dict_set_get)
  next
    case (Suc j)
    with Cons.prems ys have "length xs = length ys'" "j < length xs"
      "xs ! j \<notin> set (drop (Suc j) xs)" by simp_all
    from Cons.IH [OF this] show ?thesis using Suc ys by simp
  qed
qed

lemma rows_loop_filter:
  "rows_loop url headers rows results
     = results @ map (\<lambda>cells. dict_set (dict_of_pairs (zip headers cells)) (u ''source_url'') url)
                   (filter (\<lambda>cells. length cells = length headers) rows)"
  by (induction rows arbitrary: results) simp_all

lemma tables_loop_concat:
  "tables_loop url tables results
     = results @ concat (map (\<lambda>tbl.
         map (\<lambda>cells. dict_set (dict_of_pairs (zip (thead tbl) cells)) (u ''source_url'') url)
           (filter (\<lambda>cells. length cells = length (thead tbl)) (tbody tbl))) tables)"
  by (induction tables arbitrary: results) (simp_all add: rows_loop_filter)

text \<open>
  C2. The records of the election results are, table after table and row after row,
  one record for each body row that has as many cells as the table has header cells,
  and none for the other rows: a row with a different cell count is passed over
  without an error, and the rows before and after it are processed as if it were not
  there. The keys of a record are the header names and \<open>source_url\<close>, each once;
  \<open>source_url\<close> holds the URL, and a header holds the cell at its position (for a
  header name that occurs several times, the cell of its last occurrence).
  The run writes exactly these records as its index.
\<close>

theorem election_rows_records:
  "tables_loop url tables []
     = concat (map (\<lambda>tbl.
         map (\<lambda>cells. dict_set (dict_of_pairs (zip (thead tbl) cells)) (u ''source_url'') url)
           (filter (\<lambda>cells. length cells = length (thead tbl)) (tbody tbl))) tables)
   \<and> rows_loop url headers (before @ cells # after) results
       = (if length cells = length headers
          then rows_loop url headers before results
                 @ [dict_set (dict_of_pairs (zip headers cells)) (u ''source_url'') url]
                 @ rows_loop url headers after []
          else rows_loop url headers before results @ rows_loop url headers after [])
   \<and> (length cells = length headers \<longrightarrow>
         fst ` set (dict_set (dict_of_pairs (zip headers cells)) (u ''source_url'') url)
           = set headers \<union> {u ''source_url''}
         \<and> distinct (map fst (dict_set (dict_of_pairs (zip headers cells)) (u ''source_url'') url))
         \<and> dict_get (dict_set (dict_of_pairs (zip headers cells)) (u ''source_url'') url)
               (u ''source_url'') = Some url
         \<and> (\<forall>i<length headers.
               headers ! i \<noteq> u ''source_url'' \<and> headers ! i \<notin> set (drop (Suc i) headers)
               \<longrightarrow> dict_get (dict_set (dict_of_pairs (zip headers cells)) (u ''source_url'') url)
                      (headers ! i) = Some (cells ! i)))
   \<and> (render_tables d (elections_url year province) (world st) = (Inr found, w')
         \<and> found \<noteq> []
       \<longrightarrow> elections_run d out year province st
             = (case save_json out (tables_loop (elections_url year province) found [])
                       [u ''elections_'' @ str_int year @ u ''_''
                          @ slugify (unicode d) province @ u ''.json'']
                       (st\<lparr>world := w'\<rparr>) of
                  (Inl e, st') \<Rightarrow> (Inl e, st')
                | (Inr p, st') \<Rightarrow> (Inr (), st')))"
proof -
  have 1: "tables_loop url tables []
     = concat (map (\<lambda>tbl.
         map (\<lambda>cells. dict_set (dict_of_pairs (zip (thead tbl) cells)) (u ''source_url'') url)
           (filter (\<lambda>cells. length cells = length (thead tbl)) (tbody tbl))) tables)"
    by (simp add: tables_loop_concat)
  have 2: "rows_loop url headers (before @ cells # after) results
       = (if length cells = length headers
          then rows_loop url headers before results
                 @ [dict_set (dict_of_pairs (zip headers cells)) (u ''source_url'') url]
                 @ rows_loop url headers after []
          else rows_loop url headers before results @ rows_loop url headers after [])"
    by (simp add: rows_loop_filter)
  have 3: "fst ` set (dict_set (dict_of_pairs (zip headers cells)) (u ''source_url'') url)
           = set headers \<union> {u ''source_url''}" if "length cells = length headers"
  proof -
    from that have "fst ` set (zip headers cells) = set headers"
      by (metis map_fst_zip set_map)
    then show ?thesis by (simp add: dict_set_keys dict_of_pairs_def foldl_dict_keys)
  qed
  have 4: "distinct (map fst (dict_set (dict_of_pairs (zip headers cells)) (u ''source_url'') url))"
    by (simp add: dict_set_distinct dict_of_pairs_def foldl_dict_distinct)
  have 5: "dict_get (dict_set (dict_of_pairs (zip headers cells)) (u ''source_url'') url)
               (u ''source_url'') = Some url"
    by (simp add: dict_set_get)
  have 6: "dict_get (dict_set (dict_of_pairs (zip headers cells)) (u ''source_url'') url)
                      (headers ! i) = Some (cells ! i)"
    if "length cells = length headers" "i < length headers" "headers ! i \<noteq> u ''source_url''"
       "headers ! i \<notin> set (drop (Suc i) headers)" for i
    using that foldl_dict_get_zip [of headers cells i "[]"]
    by (simp add: dict_set_get dict_of_pairs_def)
  have 7: "elections_run d out year province st
             = (case save_json out (tables_loop (elections_url year province) found [])
                       [u ''elections_'' @ str_int year @ u ''_''
                          @ slugify (unicode d) province @ u ''.json'']
                       (st\<lparr>world := w'\<rparr>) of
                  (Inl e, st') \<Rightarrow> (Inl e, st')
                | (Inr p, st') \<Rightarrow> (Inr (), st'))"
    if "render_tables d (elections_url year province) (world st) = (Inr found, w')"
       "found \<noteq> []"
    using that by (simp add: elections_run_def Let_def)
  from 1 2 3 4 5 6 7 show ?thesis by blast
qed

theorem election_rows_records_witness:
  "tables_loop (u ''http://e/'')
     [\<lparr>thead = [u ''commune'', u ''votes''],
       tbody = [[u ''Guelmim'', u ''120''], [u ''ragged''], [u ''Asrir'', u ''75'']]\<rparr>] []
   = [[(u ''commune'', u ''Guelmim''), (u ''votes'', u ''120''), (u ''source_url'', u ''http://e/'')],
      [(u ''commune'', u ''Asrir''), (u ''votes'', u ''75''), (u ''source_url'', u ''http://e/'')]]
   \<and> dict_get (dict_set (dict_of_pairs (zip [u ''commune'', u ''votes''] [u ''Asrir'', u ''75'']))
                 (u ''source_url'') (u ''http://e/'')) (u ''votes'') = Some (u ''75'')"
  using election_rows_records [of "u ''http://e/''"
      "[\<lparr>thead = [u ''commune'', u ''votes''],
         tbody = [[u ''Guelmim'', u ''120''], [u ''ragged''], [u ''Asrir'', u ''75'']]\<rparr>]"
      "[u ''commune'', u ''votes'']" "[[u ''Guelmim'', u ''120''], [u ''ragged'']]"
      "[u ''Asrir'', u ''75'']" "[]" "[]"]
  by (simp add: dict_of_pairs_def dict_get_def u_def)

section \<open>The members of a constituency\<close>










end
